theory Spec2Isabelle
  imports Main "HOL-Library.Word" "HOL-Library.AList" "HOL-Library.Char_ord"
    "HOL-Library.List_Lexorder"
begin

unbundle bit_operations_syntax

section \<open>Identifiers and their canonical text\<close>

text \<open>
  A \<open>uuid.UUID\<close> is an array of 16 bytes; read big-endian it is a 128-bit number, and
  that number is what the word below holds. \<open>UUID.String\<close> writes the bytes in order as
  lowercase hexadecimal, two digits per byte, in groups of 4, 2, 2, 2 and 6 bytes
  separated by hyphens. Go compares strings byte by byte, a proper prefix being smaller:
  the lexicographic order on \<open>char list\<close>.
\<close>

type_synonym uuid = "128 word"

definition hextable :: string where
  "hextable = ''0123456789abcdef''"

definition hex_Encode :: "8 word list \<Rightarrow> string" where
  "hex_Encode src =
     concat (map (\<lambda>v. [hextable ! unat (drop_bit 4 v), hextable ! unat (v AND 0x0f)]) src)"

definition uuid_bytes :: "uuid \<Rightarrow> 8 word list" where
  "uuid_bytes u = map (\<lambda>i. ucast (drop_bit (8 * (15 - i)) u)) [0..<16]"

definition encodeHex :: "uuid \<Rightarrow> string" where
  "encodeHex u = (let b = uuid_bytes u in
     hex_Encode (take 4 b) @ ''-'' @ hex_Encode (take 2 (drop 4 b)) @ ''-'' @
     hex_Encode (take 2 (drop 6 b)) @ ''-'' @ hex_Encode (take 2 (drop 8 b)) @ ''-'' @
     hex_Encode (drop 10 b))"

definition uuid_String :: "uuid \<Rightarrow> string" where
  "uuid_String u = encodeHex u"

text \<open>Two devices of the order proof: the two digits of one byte, and the base-256 digits
  of a number, most significant first.\<close>

definition hexpair :: "8 word \<Rightarrow> string" where
  "hexpair v = [hextable ! unat (drop_bit 4 v), hextable ! unat (v AND 0x0f)]"

fun bdigs :: "nat \<Rightarrow> nat \<Rightarrow> nat list" where
  "bdigs 0 n = []"
| "bdigs (Suc k) n = bdigs k (n div 256) @ [n mod 256]"

section \<open>Entities, errors and outcomes\<close>

text \<open>
  Timestamps are \<open>int64\<close> in the source. The store only copies and compares them, so
  they are integers here and no wrap-around can occur.
\<close>

record Link =
  ID :: uuid
  URL :: string
  RetrievedAt :: int

record Edge =
  ID :: uuid
  Src :: uuid
  Dst :: uuid
  UpdatedAt :: int

text \<open>The error values of package \<open>graph\<close>; \<open>Errorf\<close> is \<open>fmt.Errorf\<close> with one
  \<open>%w\<close> verb, which wraps its argument, and \<open>errors_Is\<close> walks the chain of wrapped
  errors as \<open>errors.Is\<close> does. \<open>errors.Is\<close> compares pointers: a wrapper made by
  \<open>fmt.Errorf\<close> is a new pointer, equal to no other error, also not to a second wrapper
  with the same text, so a wrapper is only unwrapped here and the comparison is made at the
  sentinel that ends the chain. The one case left out is a target that is the very wrapper
  under test, which a value without identity cannot tell from its copies.\<close>

datatype error = ErrNotFound | ErrUnknownEdgeLinks | Errorf string error

fun errors_Is :: "error \<Rightarrow> error \<Rightarrow> bool" where
  "errors_Is (Errorf msg inner) target = errors_Is inner target"
| "errors_Is e target = (e = target)"

text \<open>
  A call either returns, or panics on a nil pointer dereference, or is still inside one
  of the two \<open>for { ... uuid.New() ... }\<close> loops when the identifiers drawn for it have
  all collided.
\<close>

datatype 'a outcome = Panics | Spins | Returns 'a

section \<open>The in-memory graph\<close>

text \<open>
  The four Go maps are association lists looked up with \<open>map_of\<close>; the order of a list
  stands for one of the iteration orders Go may choose. The values of \<open>links\<close>,
  \<open>linkURLIndex\<close> and \<open>edges\<close> are pointers: addresses into \<open>link_heap\<close> and
  \<open>edge_heap\<close>, the memory holding every \<open>graph.Link\<close> and \<open>graph.Edge\<close> object made by
  \<open>new\<close>. \<open>link_next\<close> and \<open>edge_next\<close> are the first addresses not yet handed out; a cell
  not yet handed out holds the zero value. A missing key reads as \<open>None\<close>, Go's nil.
\<close>

record InMemoryGraph =
  links :: "(uuid \<times> nat) list"
  edges :: "(uuid \<times> nat) list"
  linkURLIndex :: "(string \<times> nat) list"
  linkEdgeMap :: "(uuid \<times> uuid list) list"
  link_heap :: "nat \<Rightarrow> Link"
  link_next :: nat
  edge_heap :: "nat \<Rightarrow> Edge"
  edge_next :: nat

definition NewInMemoryGraph :: InMemoryGraph where
  "NewInMemoryGraph =
     \<lparr>links = [], edges = [], linkURLIndex = [], linkEdgeMap = [],
      link_heap = (\<lambda>_. \<lparr>Link.ID = 0, URL = [], RetrievedAt = 0\<rparr>), link_next = 0,
      edge_heap = (\<lambda>_. \<lparr>Edge.ID = 0, Src = 0, Dst = 0, UpdatedAt = 0\<rparr>), edge_next = 0\<rparr>"

text \<open>The loop \<open>for { id = uuid.New(); if m[id] == nil { break } }\<close>, over the identifiers
  that the successive calls of \<open>uuid.New\<close> deliver.\<close>

fun newID :: "(uuid \<times> nat) list \<Rightarrow> uuid list \<Rightarrow> uuid option" where
  "newID m [] = None"
| "newID m (c # cs) = (if map_of m c = None then Some c else newID m cs)"

text \<open>\<open>s.linkEdgeMap[k]\<close>: the nil slice for a missing key.\<close>

definition edgeList_of :: "InMemoryGraph \<Rightarrow> uuid \<Rightarrow> uuid list" where
  "edgeList_of s k = (case map_of (linkEdgeMap s) k of None \<Rightarrow> [] | Some l \<Rightarrow> l)"

text \<open>\<open>UpsertLink\<close> returns the error, the caller's record as the call leaves it, and the
  new state.\<close>

definition UpsertLink ::
  "Link \<Rightarrow> uuid list \<Rightarrow> InMemoryGraph \<Rightarrow> (error option \<times> Link \<times> InMemoryGraph) outcome" where
  "UpsertLink link draws s =
     (case map_of (linkURLIndex s) (URL link) of
        Some existing \<Rightarrow>
          let link1 = link\<lparr>Link.ID := Link.ID (link_heap s existing)\<rparr>;
              origTs = RetrievedAt (link_heap s existing);
              h1 = (link_heap s)(existing := link1);
              h2 = (if origTs > RetrievedAt (h1 existing)
                    then h1(existing := (h1 existing)\<lparr>RetrievedAt := origTs\<rparr>) else h1)
          in Returns (None, link1, s\<lparr>link_heap := h2\<rparr>)
      | None \<Rightarrow>
          (case newID (links s) draws of
             None \<Rightarrow> Spins
           | Some newid \<Rightarrow>
               let link1 = link\<lparr>Link.ID := newid\<rparr>;
                   lCopy = link_next s
               in Returns (None, link1,
                    s\<lparr>link_heap := (link_heap s)(lCopy := link1),
                      link_next := Suc lCopy,
                      linkURLIndex := AList.update (URL link1) lCopy (linkURLIndex s),
                      links := AList.update newid lCopy (links s)\<rparr>)))"

text \<open>\<open>FindLink\<close> returns the error or the address of the caller's fresh copy.\<close>

definition FindLink :: "uuid \<Rightarrow> InMemoryGraph \<Rightarrow> (error + nat) \<times> InMemoryGraph" where
  "FindLink linkID s =
     (case map_of (links s) linkID of
        None \<Rightarrow> (Inl (Errorf ''find link: %w'' ErrNotFound), s)
      | Some link \<Rightarrow>
          let lCopy = link_next s
          in (Inr lCopy,
              s\<lparr>link_heap := (link_heap s)(lCopy := link_heap s link), link_next := Suc lCopy\<rparr>))"

text \<open>\<open>Links\<close> returns the \<open>links\<close> field of the iterator it builds, and the error.\<close>

definition Links :: "uuid \<Rightarrow> uuid \<Rightarrow> int \<Rightarrow> InMemoryGraph \<Rightarrow> nat list \<times> error option" where
  "Links fromID toID retrievedBefore s =
     (let from = uuid_String fromID; to = uuid_String toID
      in ([link. (linkID, link) \<leftarrow> links s,
                 uuid_String linkID \<ge> from \<and> uuid_String linkID < to \<and>
                 RetrievedAt (link_heap s link) < retrievedBefore], None))"

text \<open>The scan of the source's edge list in \<open>UpsertEdge\<close>: the address of the edge with the
  same endpoints, if there is one.\<close>

fun findEdge :: "InMemoryGraph \<Rightarrow> Edge \<Rightarrow> uuid list \<Rightarrow> nat option outcome" where
  "findEdge s edge [] = Returns None"
| "findEdge s edge (edgeID # rest) =
     (case map_of (edges s) edgeID of
        None \<Rightarrow> Panics
      | Some existingEdge \<Rightarrow>
          if Src (edge_heap s existingEdge) = Src edge \<and> Dst (edge_heap s existingEdge) = Dst edge
          then Returns (Some existingEdge)
          else findEdge s edge rest)"

text \<open>\<open>now\<close> is what \<open>time.Now().Unix()\<close> reads during the call.\<close>

definition UpsertEdge ::
  "Edge \<Rightarrow> uuid list \<Rightarrow> int \<Rightarrow> InMemoryGraph \<Rightarrow> (error option \<times> Edge \<times> InMemoryGraph) outcome" where
  "UpsertEdge edge draws now s =
     (let srcExists = (map_of (links s) (Src edge) \<noteq> None);
          dstExists = (map_of (links s) (Dst edge) \<noteq> None)
      in if \<not> srcExists \<or> \<not> dstExists
         then Returns (Some (Errorf ''upsert edge: %w'' ErrUnknownEdgeLinks), edge, s)
         else
           (case findEdge s edge (edgeList_of s (Src edge)) of
              Panics \<Rightarrow> Panics
            | Spins \<Rightarrow> Spins
            | Returns (Some existingEdge) \<Rightarrow>
                let h = (edge_heap s)(existingEdge := (edge_heap s existingEdge)\<lparr>UpdatedAt := now\<rparr>)
                in Returns (None, h existingEdge, s\<lparr>edge_heap := h\<rparr>)
            | Returns None \<Rightarrow>
                (case newID (edges s) draws of
                   None \<Rightarrow> Spins
                 | Some newid \<Rightarrow>
                     let edge1 = edge\<lparr>Edge.ID := newid, UpdatedAt := now\<rparr>;
                         eCopy = edge_next s
                     in Returns (None, edge1,
                          s\<lparr>edge_heap := (edge_heap s)(eCopy := edge1),
                            edge_next := Suc eCopy,
                            edges := AList.update newid eCopy (edges s),
                            linkEdgeMap := AList.update (Src edge)
                              (edgeList_of s (Src edge) @ [newid]) (linkEdgeMap s)\<rparr>))))"

text \<open>The inner loop of \<open>Edges\<close>, over one link's edge list, and the outer loop, over the
  entries of \<open>links\<close>.\<close>

fun collectEdges :: "InMemoryGraph \<Rightarrow> int \<Rightarrow> uuid list \<Rightarrow> nat list \<Rightarrow> nat list outcome" where
  "collectEdges s updatedBefore [] list = Returns list"
| "collectEdges s updatedBefore (edgeID # rest) list =
     (case map_of (edges s) edgeID of
        None \<Rightarrow> Panics
      | Some edge \<Rightarrow>
          collectEdges s updatedBefore rest
            (if UpdatedAt (edge_heap s edge) < updatedBefore then list @ [edge] else list))"

fun scanLinks ::
  "InMemoryGraph \<Rightarrow> string \<Rightarrow> string \<Rightarrow> int \<Rightarrow> (uuid \<times> nat) list \<Rightarrow> nat list \<Rightarrow> nat list outcome" where
  "scanLinks s from to updatedBefore [] list = Returns list"
| "scanLinks s from to updatedBefore ((linkID, link) # rest) list =
     (if uuid_String linkID < from \<or> uuid_String linkID \<ge> to
      then scanLinks s from to updatedBefore rest list
      else
        (case collectEdges s updatedBefore (edgeList_of s linkID) list of
           Returns list' \<Rightarrow> scanLinks s from to updatedBefore rest list'
         | Panics \<Rightarrow> Panics
         | Spins \<Rightarrow> Spins))"

text \<open>\<open>Edges\<close> returns the \<open>edges\<close> field of the iterator it builds, and the error.\<close>

definition Edges ::
  "uuid \<Rightarrow> uuid \<Rightarrow> int \<Rightarrow> InMemoryGraph \<Rightarrow> (nat list \<times> error option) outcome" where
  "Edges fromID toID updatedBefore s =
     (case scanLinks s (uuid_String fromID) (uuid_String toID) updatedBefore (links s) [] of
        Returns list \<Rightarrow> Returns (list, None)
      | Panics \<Rightarrow> Panics
      | Spins \<Rightarrow> Spins)"

text \<open>The loop of \<open>RemoveStaleEdges\<close>: the edge map and the new edge list as they stand
  after each identifier of the old list.\<close>

fun pruneEdges ::
  "(nat \<Rightarrow> Edge) \<Rightarrow> int \<Rightarrow> uuid list \<Rightarrow> (uuid \<times> nat) list \<Rightarrow> uuid list \<Rightarrow>
   ((uuid \<times> nat) list \<times> uuid list) outcome" where
  "pruneEdges h updatedBefore [] es newEdgeList = Returns (es, newEdgeList)"
| "pruneEdges h updatedBefore (edgeID # rest) es newEdgeList =
     (case map_of es edgeID of
        None \<Rightarrow> Panics
      | Some edge \<Rightarrow>
          if UpdatedAt (h edge) < updatedBefore
          then pruneEdges h updatedBefore rest (AList.delete edgeID es) newEdgeList
          else pruneEdges h updatedBefore rest es (newEdgeList @ [edgeID]))"

definition RemoveStaleEdges ::
  "uuid \<Rightarrow> int \<Rightarrow> InMemoryGraph \<Rightarrow> (error option \<times> InMemoryGraph) outcome" where
  "RemoveStaleEdges fromID updatedBefore s =
     (case pruneEdges (edge_heap s) updatedBefore (edgeList_of s fromID) (edges s) [] of
        Returns (es, newEdgeList) \<Rightarrow>
          Returns (None, s\<lparr>edges := es,
                           linkEdgeMap := AList.update fromID newEdgeList (linkEdgeMap s)\<rparr>)
      | Panics \<Rightarrow> Panics
      | Spins \<Rightarrow> Spins)"

section \<open>Calls, runs and reachable states\<close>

datatype call =
    CallUpsertLink Link "uuid list"
  | CallFindLink uuid
  | CallUpsertEdge Edge "uuid list" int
  | CallRemoveStaleEdges uuid int
  | CallLinks uuid uuid int
  | CallEdges uuid uuid int

text \<open>The state a call leaves behind.\<close>

fun step :: "call \<Rightarrow> InMemoryGraph \<Rightarrow> InMemoryGraph outcome" where
  "step (CallUpsertLink link draws) s =
     (case UpsertLink link draws s of
        Returns (err, link', s') \<Rightarrow> Returns s' | Panics \<Rightarrow> Panics | Spins \<Rightarrow> Spins)"
| "step (CallFindLink linkID) s = Returns (snd (FindLink linkID s))"
| "step (CallUpsertEdge edge draws now) s =
     (case UpsertEdge edge draws now s of
        Returns (err, edge', s') \<Rightarrow> Returns s' | Panics \<Rightarrow> Panics | Spins \<Rightarrow> Spins)"
| "step (CallRemoveStaleEdges fromID updatedBefore) s =
     (case RemoveStaleEdges fromID updatedBefore s of
        Returns (err, s') \<Rightarrow> Returns s' | Panics \<Rightarrow> Panics | Spins \<Rightarrow> Spins)"
| "step (CallLinks fromID toID retrievedBefore) s = Returns s"
| "step (CallEdges fromID toID updatedBefore) s =
     (case Edges fromID toID updatedBefore s of
        Returns r \<Rightarrow> Returns s | Panics \<Rightarrow> Panics | Spins \<Rightarrow> Spins)"

fun run :: "call list \<Rightarrow> InMemoryGraph \<Rightarrow> InMemoryGraph outcome" where
  "run [] s = Returns s"
| "run (c # cs) s =
     (case step c s of Returns s' \<Rightarrow> run cs s' | Panics \<Rightarrow> Panics | Spins \<Rightarrow> Spins)"

inductive reachable :: "InMemoryGraph \<Rightarrow> bool" where
  reachable_new: "reachable NewInMemoryGraph"
| reachable_step: "reachable s \<Longrightarrow> step c s = Returns s' \<Longrightarrow> reachable s'"

section \<open>The consistency of the indices\<close>

text \<open>
  What every reachable state satisfies: \<open>links\<close> and \<open>linkURLIndex\<close> point to the same
  records, each filed under its own identifier and URL; every stored edge is filed under
  its own identifier, joins two stored links and is listed by its source; every listed
  edge identifier is stored with that source; no two stored edges join the same ordered
  pair; and Go map keys are unique.
\<close>

definition links_ok :: "InMemoryGraph \<Rightarrow> bool" where
  "links_ok s \<longleftrightarrow> distinct (map fst (links s)) \<and>
     (\<forall>i a. map_of (links s) i = Some a \<longrightarrow>
        a < link_next s \<and> Link.ID (link_heap s a) = i \<and>
        map_of (linkURLIndex s) (URL (link_heap s a)) = Some a)"

definition index_ok :: "InMemoryGraph \<Rightarrow> bool" where
  "index_ok s \<longleftrightarrow> distinct (map fst (linkURLIndex s)) \<and>
     (\<forall>u a. map_of (linkURLIndex s) u = Some a \<longrightarrow>
        a < link_next s \<and> URL (link_heap s a) = u \<and>
        map_of (links s) (Link.ID (link_heap s a)) = Some a)"

definition edges_ok :: "InMemoryGraph \<Rightarrow> bool" where
  "edges_ok s \<longleftrightarrow> distinct (map fst (edges s)) \<and>
     (\<forall>i a. map_of (edges s) i = Some a \<longrightarrow>
        a < edge_next s \<and> Edge.ID (edge_heap s a) = i \<and>
        map_of (links s) (Src (edge_heap s a)) \<noteq> None \<and>
        map_of (links s) (Dst (edge_heap s a)) \<noteq> None \<and>
        i \<in> set (edgeList_of s (Src (edge_heap s a))))"

definition adjacency_ok :: "InMemoryGraph \<Rightarrow> bool" where
  "adjacency_ok s \<longleftrightarrow> distinct (map fst (linkEdgeMap s)) \<and>
     (\<forall>src. distinct (edgeList_of s src) \<and>
        (\<forall>i \<in> set (edgeList_of s src).
           \<exists>a. map_of (edges s) i = Some a \<and> Src (edge_heap s a) = src))"

definition pairs_ok :: "InMemoryGraph \<Rightarrow> bool" where
  "pairs_ok s \<longleftrightarrow>
     (\<forall>i a j b. map_of (edges s) i = Some a \<and> map_of (edges s) j = Some b \<and>
        Src (edge_heap s a) = Src (edge_heap s b) \<and> Dst (edge_heap s a) = Dst (edge_heap s b)
        \<longrightarrow> i = j)"

definition graph_inv :: "InMemoryGraph \<Rightarrow> bool" where
  "graph_inv s \<longleftrightarrow> links_ok s \<and> index_ok s \<and> edges_ok s \<and> adjacency_ok s \<and> pairs_ok s"


text \<open>An edge that \<open>RemoveStaleEdges\<close> deletes: one stored with a timestamp before the
  threshold.\<close>

definition staleEdge :: "(nat \<Rightarrow> Edge) \<Rightarrow> int \<Rightarrow> (uuid \<times> nat) list \<Rightarrow> uuid \<Rightarrow> bool" where
  "staleEdge h t es j = (case map_of es j of None \<Rightarrow> False | Some a \<Rightarrow> UpdatedAt (h a) < t)"

section \<open>A worked scenario\<close>

text \<open>
  The end-to-end scenario of the specification, with the identifiers 7 and 9 drawn for the
  links and 5 and 6 for the edges; the theorems below are instantiated on the state it
  leaves. \<open>state_of\<close> reads the state out of a run that returned.
\<close>

fun state_of :: "InMemoryGraph outcome \<Rightarrow> InMemoryGraph" where
  "state_of (Returns s) = s"
| "state_of _ = NewInMemoryGraph"

definition ex_calls :: "call list" where
  "ex_calls =
     [CallUpsertLink \<lparr>Link.ID = 0, URL = ''a'', RetrievedAt = 100\<rparr> [7],
      CallUpsertLink \<lparr>Link.ID = 0, URL = ''a'', RetrievedAt = 50\<rparr> [8],
      CallUpsertLink \<lparr>Link.ID = 0, URL = ''b'', RetrievedAt = 90\<rparr> [7, 9],
      CallUpsertEdge \<lparr>Edge.ID = 0, Src = 7, Dst = 9, UpdatedAt = 0\<rparr> [5] 1000,
      CallUpsertEdge \<lparr>Edge.ID = 0, Src = 7, Dst = 9, UpdatedAt = 0\<rparr> [6] 1001,
      CallUpsertEdge \<lparr>Edge.ID = 0, Src = 9, Dst = 7, UpdatedAt = 0\<rparr> [5, 6] 1002]"

definition ex_graph :: InMemoryGraph where
  "ex_graph = state_of (run ex_calls NewInMemoryGraph)"

definition inRange :: "string \<Rightarrow> string \<Rightarrow> uuid \<Rightarrow> bool" where
  "inRange from to linkID \<longleftrightarrow> \<not> (uuid_String linkID < from \<or> uuid_String linkID \<ge> to)"

fun submitted :: "string \<Rightarrow> call list \<Rightarrow> int list" where
  "submitted u [] = []"
| "submitted u (c # cs) =
     (case c of
        CallUpsertLink link draws \<Rightarrow>
          if URL link = u then RetrievedAt link # submitted u cs else submitted u cs
      | _ \<Rightarrow> submitted u cs)"

definition storedRetrievedAt :: "InMemoryGraph \<Rightarrow> string \<Rightarrow> int option" where
  "storedRetrievedAt s u = map_option (\<lambda>a. RetrievedAt (link_heap s a)) (map_of (linkURLIndex s) u)"

definition newer :: "int option \<Rightarrow> int \<Rightarrow> int option" where
  "newer acc t = Some (case acc of None \<Rightarrow> t | Some m \<Rightarrow> max m t)"

text \<open>
  The identifiers drawn for a run suffice when every call that may have to generate one
  draws a value that no earlier call of the run drew and that no stored link or edge
  bears: \<open>used\<close> holds the identifiers drawn or stored so far.
\<close>

fun fresh_supply :: "uuid set \<Rightarrow> call list \<Rightarrow> bool" where
  "fresh_supply used [] = True"
| "fresh_supply used (c # cs) =
     (case c of
        CallUpsertLink link draws \<Rightarrow>
          (\<exists>d \<in> set draws. d \<notin> used) \<and> fresh_supply (used \<union> set draws) cs
      | CallUpsertEdge edge draws now \<Rightarrow>
          (\<exists>d \<in> set draws. d \<notin> used) \<and> fresh_supply (used \<union> set draws) cs
      | _ \<Rightarrow> fresh_supply used cs)"

text \<open>
  Modelled from the spec: the iterator types, which are not among the sources; \<open>Links\<close>
  and \<open>Edges\<close> only build \<open>&linkIterator{s: s, links: list}\<close> and
  \<open>&edgeIterator{s: s, edges: list}\<close>. Spec 4.3 gives an iterator a private list and a
  cursor. The private list is the \<open>list\<close> that \<open>Links\<close> or \<open>Edges\<close> built, so its items are
  the pointers collected there; \<open>seen\<close> counts the successful advances, and \<open>exhausted\<close>
  records an advance that found no further item.
\<close>

record iterator =
  items :: "nat list"
  seen :: nat
  exhausted :: bool

text \<open>Modelled from the spec: the iterator as \<open>Links\<close> and \<open>Edges\<close> hand it out, with the
  cursor before the first item.\<close>

definition newIterator :: "nat list \<Rightarrow> iterator" where
  "newIterator list = \<lparr>items = list, seen = 0, exhausted = False\<rparr>"

text \<open>Modelled from the spec: \<open>Next\<close>, the \<open>advance()\<close> of spec 4.3, which moves the cursor
  forward and reports whether an item is now available.\<close>

definition iterator_Next :: "iterator \<Rightarrow> bool \<times> iterator" where
  "iterator_Next it =
     (if seen it < length (items it) then (True, it\<lparr>seen := Suc (seen it)\<rparr>)
      else (False, it\<lparr>exhausted := True\<rparr>))"

text \<open>Modelled from the spec: \<open>Link\<close>, the \<open>current()\<close> of spec 4.3 for links, which returns
  a copy of the item at the cursor; the copy is a new cell, as in \<open>FindLink\<close>. Calling it
  before the first successful advance or after exhaustion is a usage error, \<open>None\<close> here.\<close>

definition linkIterator_Link :: "iterator \<Rightarrow> InMemoryGraph \<Rightarrow> (nat \<times> InMemoryGraph) option" where
  "linkIterator_Link it s =
     (if seen it = 0 \<or> exhausted it then None
      else
        let lCopy = link_next s
        in Some (lCopy,
             s\<lparr>link_heap := (link_heap s)(lCopy := link_heap s (items it ! (seen it - 1))),
               link_next := Suc lCopy\<rparr>))"

text \<open>Modelled from the spec: \<open>Edge\<close>, the \<open>current()\<close> of spec 4.3 for edges.\<close>

definition edgeIterator_Edge :: "iterator \<Rightarrow> InMemoryGraph \<Rightarrow> (nat \<times> InMemoryGraph) option" where
  "edgeIterator_Edge it s =
     (if seen it = 0 \<or> exhausted it then None
      else
        let eCopy = edge_next s
        in Some (eCopy,
             s\<lparr>edge_heap := (edge_heap s)(eCopy := edge_heap s (items it ! (seen it - 1))),
               edge_next := Suc eCopy\<rparr>))"

section \<open>The textual order of identifiers is their numeric order\<close>

lemma lex_append_eq_len:
  "length u = length v \<Longrightarrow> (u @ s < v @ t) = (u < v \<or> u = v \<and> s < t)"
  by (induction u v rule: list_induct2) auto

lemma lex_map_strict:
  fixes f :: "'a::linorder \<Rightarrow> 'b::linorder"
  assumes "\<And>x y. (f x < f y) = (x < y)"
  shows "(map f xs < map f ys) = (xs < ys)"
proof -
  have inj: "\<And>x y. (f x = f y) = (x = y)"
    using assms by (metis less_irrefl not_less_iff_gr_or_eq)
  show ?thesis
    by (induction xs arbitrary: ys) (case_tac ys; simp add: assms inj)+
qed

lemma div_mod_lex:
  fixes n m b :: nat
  shows "(n div b < m div b \<or> n div b = m div b \<and> n mod b < m mod b) = (n < m)"
proof
  assume "n div b < m div b \<or> n div b = m div b \<and> n mod b < m mod b"
  then show "n < m"
  proof
    assume "n div b < m div b"
    then have "\<not> m div b \<le> n div b" by simp
    then have "\<not> m \<le> n" using div_le_mono by blast
    then show ?thesis by simp
  next
    assume h: "n div b = m div b \<and> n mod b < m mod b"
    have "n = m div b * b + n mod b" "m = m div b * b + m mod b"
      using h div_mult_mod_eq[of n b] div_mult_mod_eq[of m b] by simp_all
    then show ?thesis using h by linarith
  qed
next
  assume lt: "n < m"
  then have le: "n div b \<le> m div b" by (simp add: div_le_mono)
  show "n div b < m div b \<or> n div b = m div b \<and> n mod b < m mod b"
  proof (cases "n div b = m div b")
    case True
    have "n = m div b * b + n mod b" "m = m div b * b + m mod b"
      using True div_mult_mod_eq[of n b] div_mult_mod_eq[of m b] by simp_all
    then have "n mod b < m mod b" using lt by linarith
    then show ?thesis using True by simp
  next
    case False
    then show ?thesis using le by simp
  qed
qed

lemma length_bdigs: "length (bdigs k n) = k"
  by (induction k arbitrary: n) auto

lemma bdigs_less:
  "n < 256 ^ k \<Longrightarrow> m < 256 ^ k \<Longrightarrow> (bdigs k n < bdigs k m) = (n < m)"
proof (induction k arbitrary: n m)
  case 0
  then show ?case by simp
next
  case (Suc k)
  have a: "n div 256 < 256 ^ k" "m div 256 < 256 ^ k"
    using Suc.prems by (simp_all add: less_mult_imp_div_less mult.commute)
  have inj: "(bdigs k (n div 256) = bdigs k (m div 256)) = (n div 256 = m div 256)"
    using Suc.IH[OF a] Suc.IH[OF a(2) a(1)] by (metis less_irrefl linorder_neqE_nat)
  show ?case
    using Suc.IH[OF a] inj div_mod_lex[of n 256 m]
    by (simp add: lex_append_eq_len length_bdigs)
qed

lemma bdigs_index:
  "map (\<lambda>i. (n div 256 ^ (k - Suc i)) mod 256) [0..<k] = bdigs k n"
proof (induction k arbitrary: n)
  case 0
  then show ?case by simp
next
  case (Suc k)
  have "map (\<lambda>i. (n div 256 ^ (Suc k - Suc i)) mod 256) [0..<k]
        = map (\<lambda>i. ((n div 256) div 256 ^ (k - Suc i)) mod 256) [0..<k]"
  proof (rule map_cong[OF refl])
    fix i assume "i \<in> set [0..<k]"
    then have "Suc k - Suc i = Suc (k - Suc i)" by auto
    then show "n div 256 ^ (Suc k - Suc i) mod 256 = n div 256 div 256 ^ (k - Suc i) mod 256"
      by (simp add: div_mult2_eq)
  qed
  then show ?case using Suc.IH[of "n div 256"] by simp
qed

lemma unat_byte:
  "unat (ucast (drop_bit m (u::128 word)) :: 8 word) = (unat u div 2 ^ m) mod 256"
proof -
  have "unat (ucast (drop_bit m u) :: 8 word) = take_bit 8 (unat (drop_bit m u))"
    by (simp add: unsigned_ucast_eq)
  also have "\<dots> = take_bit 8 (drop_bit m (unat u))"
    by (simp only: unat_drop_bit_eq)
  also have "\<dots> = (unat u div 2 ^ m) mod 256"
    by (simp add: drop_bit_eq_div take_bit_eq_mod)
  finally show ?thesis .
qed

lemma unat_uuid_bytes: "map unat (uuid_bytes u) = bdigs 16 (unat u)"
proof -
  have "map unat (uuid_bytes u) = map (\<lambda>i. (unat u div 256 ^ (16 - Suc i)) mod 256) [0..<16]"
    unfolding uuid_bytes_def map_map
  proof (rule map_cong[OF refl])
    fix i assume "i \<in> set [0..<16]"
    have "(2::nat) ^ (8 * (15 - i)) = 256 ^ (16 - Suc i)"
      by (simp add: power_mult)
    then show "(unat \<circ> (\<lambda>i. ucast (drop_bit (8 * (15 - i)) u) :: 8 word)) i
        = unat u div 256 ^ (16 - Suc i) mod 256"
      by (simp add: unat_byte)
  qed
  then show ?thesis by (simp only: bdigs_index)
qed

lemma length_uuid_bytes: "length (uuid_bytes u) = 16"
  by (simp add: uuid_bytes_def)

lemma uuid_bytes_less: "(uuid_bytes a < uuid_bytes b) = (a < b)"
proof -
  have ua: "unat a < 256 ^ 16" "unat b < 256 ^ 16"
    using unsigned_less[of a, where 'a=nat] unsigned_less[of b, where 'a=nat] by simp_all
  have "(uuid_bytes a < uuid_bytes b) = (map unat (uuid_bytes a) < map unat (uuid_bytes b))"
    by (rule lex_map_strict[symmetric]) (simp add: word_less_nat_alt)
  also have "\<dots> = (unat a < unat b)"
    by (simp only: unat_uuid_bytes bdigs_less[OF ua])
  finally show ?thesis by (simp add: word_less_nat_alt)
qed

lemma of_char_hextable:
  "d < 16 \<Longrightarrow> (of_char (hextable ! d) :: nat) = (if d < 10 then 48 + d else 87 + d)"
proof -
  assume "d < 16"
  then have "d = 0 \<or> d = 1 \<or> d = 2 \<or> d = 3 \<or> d = 4 \<or> d = 5 \<or> d = 6 \<or> d = 7 \<or> d = 8
      \<or> d = 9 \<or> d = 10 \<or> d = 11 \<or> d = 12 \<or> d = 13 \<or> d = 14 \<or> d = 15"
    by (simp add: eval_nat_numeral less_Suc_eq)
  then show ?thesis by (elim disjE) (simp_all add: hextable_def)
qed

lemma hextable_less:
  "d < 16 \<Longrightarrow> e < 16 \<Longrightarrow> (hextable ! d < hextable ! e) = (d < e)"
  unfolding less_char_def by (simp add: of_char_hextable)

lemma hextable_eq:
  "d < 16 \<Longrightarrow> e < 16 \<Longrightarrow> (hextable ! d = hextable ! e) = (d = e)"
  using hextable_less[of d e] hextable_less[of e d] by (metis less_irrefl linorder_neqE_nat)

lemma nibbles:
  fixes v :: "8 word"
  shows "unat (drop_bit 4 v) = unat v div 16" "unat (v AND 0x0f) = unat v mod 16"
proof -
  have "unat (drop_bit 4 v) = drop_bit 4 (unat v)"
    by (simp only: unat_drop_bit_eq)
  then show "unat (drop_bit 4 v) = unat v div 16"
    by (simp add: drop_bit_eq_div)
  have "v AND 0x0f = take_bit 4 v"
    using take_bit_eq_mask[of 4 v] by (simp add: mask_eq_exp_minus_1)
  then have "unat (v AND 0x0f) = take_bit 4 (unat v)"
    by (simp only: unsigned_take_bit_eq)
  then show "unat (v AND 0x0f) = unat v mod 16"
    by (simp add: take_bit_eq_mod)
qed

lemma hexpair_less: "(hexpair v < hexpair w) = (v < w)"
proof -
  have b: "unat v div 16 < 16" "unat w div 16 < 16" "unat v mod 16 < 16" "unat w mod 16 < 16"
    using unsigned_less[of v, where 'a=nat] unsigned_less[of w, where 'a=nat] by simp_all
  show ?thesis
    using div_mod_lex[of "unat v" 16 "unat w"]
    by (simp add: hexpair_def nibbles hextable_less hextable_eq b word_less_nat_alt)
qed

lemma lex_concat_blocks:
  fixes f :: "'a::linorder \<Rightarrow> 'b::linorder list"
  assumes len: "\<And>x. length (f x) = n" and mono: "\<And>x y. (f x < f y) = (x < y)"
  shows "length xs = length ys \<Longrightarrow> (concat (map f xs) < concat (map f ys)) = (xs < ys)"
proof (induction xs ys rule: list_induct2)
  case Nil
  then show ?case by simp
next
  case (Cons x xs y ys)
  have inj: "(f x = f y) = (x = y)"
    using mono[of x y] mono[of y x] by (metis less_irrefl not_less_iff_gr_or_eq)
  show ?case
    using Cons.IH by (simp add: lex_append_eq_len len mono inj)
qed

lemma hex_Encode_hexpair: "hex_Encode xs = concat (map hexpair xs)"
  by (induction xs) (simp_all add: hex_Encode_def hexpair_def)

lemma length_hexpair: "length (hexpair v) = 2"
  by (simp add: hexpair_def)

lemma hex_Encode_less:
  "length xs = length ys \<Longrightarrow> (hex_Encode xs < hex_Encode ys) = (xs < ys)"
  unfolding hex_Encode_hexpair
  by (rule lex_concat_blocks[where n = 2]) (simp_all add: length_hexpair hexpair_less)

lemma length_hex_Encode: "length (hex_Encode xs) = 2 * length xs"
  by (induction xs) (simp_all add: hex_Encode_def)

lemma hex_Encode_inj:
  "length p = length q \<Longrightarrow> (hex_Encode p = hex_Encode q) = (p = q)"
  using hex_Encode_less[of p q] hex_Encode_less[of q p]
  by (metis less_irrefl not_less_iff_gr_or_eq)

lemma hex_group_less:
  "length p = length q \<Longrightarrow>
   (hex_Encode p @ c # s < hex_Encode q @ c # t) = (p < q \<or> p = q \<and> s < t)"
  by (simp add: lex_append_eq_len length_hex_Encode hex_Encode_less hex_Encode_inj)

lemma split_16:
  "b = take 4 b @ take 2 (drop 4 b) @ take 2 (drop 6 b) @ take 2 (drop 8 b) @ drop 10 b"
proof -
  have "drop 8 b = take 2 (drop 8 b) @ drop 10 b"
    using append_take_drop_id[of 2 "drop 8 b"] by simp
  moreover have "drop 6 b = take 2 (drop 6 b) @ drop 8 b"
    using append_take_drop_id[of 2 "drop 6 b"] by simp
  moreover have "drop 4 b = take 2 (drop 4 b) @ drop 6 b"
    using append_take_drop_id[of 2 "drop 4 b"] by simp
  moreover have "b = take 4 b @ drop 4 b" by simp
  ultimately show ?thesis by metis
qed

lemma encodeHex_less: "(encodeHex a < encodeHex b) = (a < b)"
proof -
  define x where "x = uuid_bytes a"
  define y where "y = uuid_bytes b"
  have len: "length x = 16" "length y = 16"
    by (simp_all add: x_def y_def length_uuid_bytes)
  have "(encodeHex a < encodeHex b) =
        (take 4 x < take 4 y \<or> take 4 x = take 4 y \<and>
         (take 2 (drop 4 x) < take 2 (drop 4 y) \<or> take 2 (drop 4 x) = take 2 (drop 4 y) \<and>
         (take 2 (drop 6 x) < take 2 (drop 6 y) \<or> take 2 (drop 6 x) = take 2 (drop 6 y) \<and>
         (take 2 (drop 8 x) < take 2 (drop 8 y) \<or> take 2 (drop 8 x) = take 2 (drop 8 y) \<and>
          drop 10 x < drop 10 y))))"
    unfolding encodeHex_def Let_def x_def[symmetric] y_def[symmetric]
    by (simp add: hex_group_less len hex_Encode_less)
  also have "\<dots> = (take 4 x @ take 2 (drop 4 x) @ take 2 (drop 6 x) @ take 2 (drop 8 x) @ drop 10 x
                 < take 4 y @ take 2 (drop 4 y) @ take 2 (drop 6 y) @ take 2 (drop 8 y) @ drop 10 y)"
    by (simp add: lex_append_eq_len len)
  also have "\<dots> = (x < y)"
    using split_16[of x] split_16[of y] by simp
  also have "\<dots> = (a < b)"
    by (simp add: x_def y_def uuid_bytes_less)
  finally show ?thesis .
qed

lemma uuid_String_less: "(uuid_String a < uuid_String b) = (a < b)"
  by (simp add: uuid_String_def encodeHex_less)

lemma uuid_String_le: "(uuid_String a \<le> uuid_String b) = (a \<le> b)"
  using uuid_String_less[of b a] by (simp add: not_less[symmetric])

section \<open>Every call preserves the consistency of the indices\<close>

lemma links_okD:
  assumes "graph_inv s" "map_of (links s) i = Some a"
  shows "a < link_next s" "Link.ID (link_heap s a) = i"
    "map_of (linkURLIndex s) (URL (link_heap s a)) = Some a"
  using assms unfolding graph_inv_def links_ok_def by blast+

lemma index_okD:
  assumes "graph_inv s" "map_of (linkURLIndex s) u = Some a"
  shows "a < link_next s" "URL (link_heap s a) = u"
    "map_of (links s) (Link.ID (link_heap s a)) = Some a"
  using assms unfolding graph_inv_def index_ok_def by blast+

lemma edges_okD:
  assumes "graph_inv s" "map_of (edges s) i = Some a"
  shows "a < edge_next s" "Edge.ID (edge_heap s a) = i"
    "map_of (links s) (Src (edge_heap s a)) \<noteq> None"
    "map_of (links s) (Dst (edge_heap s a)) \<noteq> None"
    "i \<in> set (edgeList_of s (Src (edge_heap s a)))"
  using assms unfolding graph_inv_def edges_ok_def by blast+

lemma adjacency_okD:
  assumes "graph_inv s"
  shows "distinct (edgeList_of s src)"
    "i \<in> set (edgeList_of s src) \<Longrightarrow> \<exists>a. map_of (edges s) i = Some a \<and> Src (edge_heap s a) = src"
  using assms unfolding graph_inv_def adjacency_ok_def by blast+

lemma pairs_okD:
  assumes "graph_inv s" "map_of (edges s) i = Some a" "map_of (edges s) j = Some b"
    "Src (edge_heap s a) = Src (edge_heap s b)" "Dst (edge_heap s a) = Dst (edge_heap s b)"
  shows "i = j"
  using assms unfolding graph_inv_def pairs_ok_def by blast

lemma distinct_keysD:
  assumes "graph_inv s"
  shows "distinct (map fst (links s))" "distinct (map fst (linkURLIndex s))"
    "distinct (map fst (edges s))" "distinct (map fst (linkEdgeMap s))"
  using assms unfolding graph_inv_def links_ok_def index_ok_def edges_ok_def adjacency_ok_def
  by blast+

lemma newID_Some: "newID m ds = Some i \<Longrightarrow> map_of m i = None \<and> i \<in> set ds"
  by (induction ds) (auto split: if_splits)

lemma newID_None: "(newID m ds = None) = (\<forall>d \<in> set ds. map_of m d \<noteq> None)"
  by (induction ds) auto

lemma edgeList_of_update:
  "edgeList_of (s\<lparr>linkEdgeMap := AList.update k l (linkEdgeMap s)\<rparr>) k' =
     (if k' = k then l else edgeList_of s k')"
  by (simp add: edgeList_of_def update_conv')

lemma UpsertLink_existing:
  assumes "map_of (linkURLIndex s) (URL link) = Some a"
  shows "UpsertLink link draws s =
     Returns (None, link\<lparr>Link.ID := Link.ID (link_heap s a)\<rparr>,
       s\<lparr>link_heap := (link_heap s)(a := link\<lparr>Link.ID := Link.ID (link_heap s a),
            RetrievedAt := max (RetrievedAt (link_heap s a)) (RetrievedAt link)\<rparr>)\<rparr>)"
  using assms by (simp add: UpsertLink_def Let_def max_def)

lemma UpsertLink_new:
  assumes "map_of (linkURLIndex s) (URL link) = None" "newID (links s) draws = Some i"
  shows "UpsertLink link draws s =
     Returns (None, link\<lparr>Link.ID := i\<rparr>,
       s\<lparr>link_heap := (link_heap s)(link_next s := link\<lparr>Link.ID := i\<rparr>),
         link_next := Suc (link_next s),
         linkURLIndex := AList.update (URL link) (link_next s) (linkURLIndex s),
         links := AList.update i (link_next s) (links s)\<rparr>)"
  using assms by (simp add: UpsertLink_def Let_def)

lemma UpsertLink_cases [consumes 1, case_names existing new]:
  assumes "UpsertLink link draws s = Returns (err, link', s')"
  obtains (existing) a where "map_of (linkURLIndex s) (URL link) = Some a"
  | (new) i where "map_of (linkURLIndex s) (URL link) = None" "newID (links s) draws = Some i"
  using assms by (auto simp: UpsertLink_def split: option.splits)

lemma UpsertLink_existingD:
  assumes "map_of (linkURLIndex s) (URL link) = Some a"
    and "UpsertLink link draws s = Returns (err, link', s')"
  shows "err = None" "link' = link\<lparr>Link.ID := Link.ID (link_heap s a)\<rparr>"
    "s' = s\<lparr>link_heap := (link_heap s)(a := link\<lparr>Link.ID := Link.ID (link_heap s a),
            RetrievedAt := max (RetrievedAt (link_heap s a)) (RetrievedAt link)\<rparr>)\<rparr>"
proof -
  have "Returns (None, link\<lparr>Link.ID := Link.ID (link_heap s a)\<rparr>,
       s\<lparr>link_heap := (link_heap s)(a := link\<lparr>Link.ID := Link.ID (link_heap s a),
            RetrievedAt := max (RetrievedAt (link_heap s a)) (RetrievedAt link)\<rparr>)\<rparr>)
        = Returns (err, link', s')"
    using assms(2) by (simp only: UpsertLink_existing[OF assms(1)])
  then have "None = err" "link\<lparr>Link.ID := Link.ID (link_heap s a)\<rparr> = link'"
    "s\<lparr>link_heap := (link_heap s)(a := link\<lparr>Link.ID := Link.ID (link_heap s a),
            RetrievedAt := max (RetrievedAt (link_heap s a)) (RetrievedAt link)\<rparr>)\<rparr> = s'"
    unfolding outcome.inject prod.inject by blast+
  then show "err = None" "link' = link\<lparr>Link.ID := Link.ID (link_heap s a)\<rparr>"
    "s' = s\<lparr>link_heap := (link_heap s)(a := link\<lparr>Link.ID := Link.ID (link_heap s a),
            RetrievedAt := max (RetrievedAt (link_heap s a)) (RetrievedAt link)\<rparr>)\<rparr>"
    by - (rule sym, assumption)+
qed

lemma UpsertLink_newD:
  assumes "map_of (linkURLIndex s) (URL link) = None" "newID (links s) draws = Some i"
    and "UpsertLink link draws s = Returns (err, link', s')"
  shows "err = None" "link' = link\<lparr>Link.ID := i\<rparr>"
    "s' = s\<lparr>link_heap := (link_heap s)(link_next s := link\<lparr>Link.ID := i\<rparr>),
         link_next := Suc (link_next s),
         linkURLIndex := AList.update (URL link) (link_next s) (linkURLIndex s),
         links := AList.update i (link_next s) (links s)\<rparr>"
proof -
  have "Returns (None, link\<lparr>Link.ID := i\<rparr>,
       s\<lparr>link_heap := (link_heap s)(link_next s := link\<lparr>Link.ID := i\<rparr>),
         link_next := Suc (link_next s),
         linkURLIndex := AList.update (URL link) (link_next s) (linkURLIndex s),
         links := AList.update i (link_next s) (links s)\<rparr>) = Returns (err, link', s')"
    using assms(3) by (simp only: UpsertLink_new[OF assms(1,2)])
  then have "None = err" "link\<lparr>Link.ID := i\<rparr> = link'"
    "s\<lparr>link_heap := (link_heap s)(link_next s := link\<lparr>Link.ID := i\<rparr>),
         link_next := Suc (link_next s),
         linkURLIndex := AList.update (URL link) (link_next s) (linkURLIndex s),
         links := AList.update i (link_next s) (links s)\<rparr> = s'"
    unfolding outcome.inject prod.inject by blast+
  then show "err = None" "link' = link\<lparr>Link.ID := i\<rparr>"
    "s' = s\<lparr>link_heap := (link_heap s)(link_next s := link\<lparr>Link.ID := i\<rparr>),
         link_next := Suc (link_next s),
         linkURLIndex := AList.update (URL link) (link_next s) (linkURLIndex s),
         links := AList.update i (link_next s) (links s)\<rparr>"
    by - (rule sym, assumption)+
qed


lemma UpsertLink_inv_existing:
  assumes inv: "graph_inv s" and r: "UpsertLink link draws s = Returns (err, link', s')"
   and existing: "map_of (linkURLIndex s) (URL link) = Some a"
  shows "graph_inv s'"
proof -
  note s' = UpsertLink_existingD(3)[OF existing r]
  have u: "URL (link_heap s a) = URL link"
    using inv existing by (simp add: graph_inv_def index_ok_def)
  have same: "\<And>b. Link.ID (link_heap s' b) = Link.ID (link_heap s b)"
       "\<And>b. URL (link_heap s' b) = URL (link_heap s b)"
    using u by (simp_all add: s')
  have rest: "links s' = links s" "linkURLIndex s' = linkURLIndex s" "edges s' = edges s"
    "linkEdgeMap s' = linkEdgeMap s" "link_next s' = link_next s" "edge_heap s' = edge_heap s"
    "edge_next s' = edge_next s"
    by (simp_all add: s')
  have "graph_inv s' = graph_inv s"
    unfolding graph_inv_def links_ok_def index_ok_def edges_ok_def adjacency_ok_def
      pairs_ok_def edgeList_of_def
    by (simp only: same rest)
  then show ?thesis using inv by simp
qed

lemma UpsertLink_inv_new:
  assumes inv: "graph_inv s" and r: "UpsertLink link draws s = Returns (err, link', s')"
   and new: "map_of (linkURLIndex s) (URL link) = None" "newID (links s) draws = Some i"
  shows "graph_inv s'"
proof -
  note s' = UpsertLink_newD(3)[OF new r]
  define n where "n = link_next s"
  have fresh: "map_of (links s) i = None" using newID_Some[OF new(2)] by simp
  have L: "map_of (links s') = (map_of (links s))(i \<mapsto> n)"
    and X: "map_of (linkURLIndex s') = (map_of (linkURLIndex s))(URL link \<mapsto> n)"
    and H: "link_heap s' = (link_heap s)(n := link\<lparr>Link.ID := i\<rparr>)"
    and N: "link_next s' = Suc n"
    and same: "edges s' = edges s" "linkEdgeMap s' = linkEdgeMap s" "edge_heap s' = edge_heap s"
      "edge_next s' = edge_next s" "edgeList_of s' = edgeList_of s"
    and dk: "distinct (map fst (links s'))" "distinct (map fst (linkURLIndex s'))"
    using distinct_keysD[OF inv]
    by (simp_all add: s' n_def update_conv' distinct_update edgeList_of_def fun_eq_iff)
  have old: "\<And>j b. map_of (links s) j = Some b \<Longrightarrow> b \<noteq> n \<and> link_heap s' b = link_heap s b
      \<and> URL (link_heap s b) \<noteq> URL link \<and> j \<noteq> i"
  proof -
    fix j b assume jb: "map_of (links s) j = Some b"
    have "b < n" using links_okD(1)[OF inv jb] by (simp add: n_def)
    moreover have "URL (link_heap s b) \<noteq> URL link"
      using links_okD(3)[OF inv jb] new(1) by auto
    moreover have "j \<noteq> i" using jb fresh by auto
    ultimately show "b \<noteq> n \<and> link_heap s' b = link_heap s b
      \<and> URL (link_heap s b) \<noteq> URL link \<and> j \<noteq> i" by (simp add: H)
  qed
  have lk: "links_ok s'"
    unfolding links_ok_def
  proof (intro conjI allI impI)
    show "distinct (map fst (links s'))" by (rule dk)
  next
    fix j b assume jb: "map_of (links s') j = Some b"
    show "b < link_next s'" 
      using jb links_okD(1)[OF inv, of j b] by (auto simp: L N n_def split: if_splits)
    show "Link.ID (link_heap s' b) = j"
      using jb old[of j b] links_okD(2)[OF inv, of j b] by (auto simp: L H split: if_splits)
    show "map_of (linkURLIndex s') (URL (link_heap s' b)) = Some b"
      using jb old[of j b] links_okD(3)[OF inv, of j b] by (auto simp: L H X split: if_splits)
  qed
  have ix: "index_ok s'"
    unfolding index_ok_def
  proof (rule conjI)
    show "distinct (map fst (linkURLIndex s'))" by (rule dk)
  next
    show "\<forall>u b. map_of (linkURLIndex s') u = Some b \<longrightarrow>
          b < link_next s' \<and> URL (link_heap s' b) = u \<and>
          map_of (links s') (Link.ID (link_heap s' b)) = Some b"
    proof (intro allI impI)
    fix u b assume ub: "map_of (linkURLIndex s') u = Some b"
    show "b < link_next s' \<and> URL (link_heap s' b) = u \<and>
          map_of (links s') (Link.ID (link_heap s' b)) = Some b"
    proof (cases "u = URL link")
      case True
      then have "b = n" using ub by (simp add: X)
      then show ?thesis using True by (simp add: N H L)
    next
      case False
      then have ub': "map_of (linkURLIndex s) u = Some b" using ub by (simp add: X)
      note d = index_okD[OF inv ub']
      note o = old[OF d(3)]
      have hb: "link_heap s' b = link_heap s b" using o by simp
      have "Link.ID (link_heap s b) \<noteq> i" using o by simp
      then show ?thesis using d by (simp add: hb N n_def L)
    qed
    qed
  qed
  have ed: "edges_ok s'"
    unfolding edges_ok_def same
  proof (intro conjI allI impI)
    show "distinct (map fst (edges s))" by (rule distinct_keysD[OF inv])
  next
    fix j b assume jb: "map_of (edges s) j = Some b"
    show "b < edge_next s" "Edge.ID (edge_heap s b) = j"
      "j \<in> set (edgeList_of s (Src (edge_heap s b)))"
      using edges_okD[OF inv jb] by simp_all
    show "map_of (links s') (Src (edge_heap s b)) \<noteq> None"
      "map_of (links s') (Dst (edge_heap s b)) \<noteq> None"
      using edges_okD(3,4)[OF inv jb] by (simp_all add: L)
  qed
  have "adjacency_ok s' = adjacency_ok s" "pairs_ok s' = pairs_ok s"
    unfolding adjacency_ok_def pairs_ok_def same by (rule refl)+
  then have ad: "adjacency_ok s'" and pr: "pairs_ok s'"
    using inv by (simp_all add: graph_inv_def)
  show ?thesis using lk ix ed ad pr by (simp add: graph_inv_def)
qed

lemma UpsertLink_inv:
  assumes inv: "graph_inv s" and r: "UpsertLink link draws s = Returns (err, link', s')"
  shows "graph_inv s'"
  using r
proof (cases rule: UpsertLink_cases)
  case (existing a)
  then show ?thesis using UpsertLink_inv_existing[OF inv r] by simp
next
  case (new i)
  then show ?thesis using UpsertLink_inv_new[OF inv r] by simp
qed

lemma heap_growth_inv:
  assumes inv: "graph_inv s"
    and same: "links s' = links s" "linkURLIndex s' = linkURLIndex s" "edges s' = edges s"
      "linkEdgeMap s' = linkEdgeMap s" "edge_heap s' = edge_heap s" "edge_next s' = edge_next s"
    and nx: "link_next s \<le> link_next s'"
    and hp: "\<And>b. b < link_next s \<Longrightarrow> link_heap s' b = link_heap s b"
  shows "graph_inv s'"
proof -
  have el: "edgeList_of s' = edgeList_of s"
    by (simp add: fun_eq_iff edgeList_of_def same)
  have lk: "links_ok s'"
    unfolding links_ok_def same
  proof (intro conjI allI impI)
    show "distinct (map fst (links s))" by (rule distinct_keysD[OF inv])
  next
    fix j b assume jb: "map_of (links s) j = Some b"
    note d = links_okD[OF inv jb]
    show "b < link_next s'" using d(1) nx by simp
    show "Link.ID (link_heap s' b) = j" using d by (simp add: hp)
    show "map_of (linkURLIndex s) (URL (link_heap s' b)) = Some b" using d by (simp add: hp)
  qed
  have ix: "index_ok s'"
    unfolding index_ok_def same
  proof (intro conjI allI impI)
    show "distinct (map fst (linkURLIndex s))" by (rule distinct_keysD[OF inv])
  next
    fix u b assume ub: "map_of (linkURLIndex s) u = Some b"
    note d = index_okD[OF inv ub]
    show "b < link_next s'" using d(1) nx by simp
    show "URL (link_heap s' b) = u" using d by (simp add: hp)
    show "map_of (links s) (Link.ID (link_heap s' b)) = Some b" using d by (simp add: hp)
  qed
  have "edges_ok s' = edges_ok s" "adjacency_ok s' = adjacency_ok s" "pairs_ok s' = pairs_ok s"
    unfolding edges_ok_def adjacency_ok_def pairs_ok_def same el by (rule refl)+
  then show ?thesis using lk ix inv by (simp add: graph_inv_def)
qed

lemma FindLink_inv:
  assumes inv: "graph_inv s"
  shows "graph_inv (snd (FindLink linkID s))"
proof (cases "map_of (links s) linkID")
  case None
  then show ?thesis using inv by (simp add: FindLink_def)
next
  case (Some a)
  show ?thesis
    by (rule heap_growth_inv[OF inv]) (simp_all add: FindLink_def Some Let_def)
qed

lemma findEdge_not_Spins: "findEdge s edge l \<noteq> Spins"
  by (induction l) (auto split: option.splits)

lemma findEdge_not_Panics:
  "(\<And>j. j \<in> set l \<Longrightarrow> map_of (edges s) j \<noteq> None) \<Longrightarrow> findEdge s edge l \<noteq> Panics"
  by (induction l) (auto split: option.splits)

lemma findEdge_None:
  "findEdge s edge l = Returns None \<Longrightarrow> j \<in> set l \<Longrightarrow> map_of (edges s) j = Some a \<Longrightarrow>
   \<not> (Src (edge_heap s a) = Src edge \<and> Dst (edge_heap s a) = Dst edge)"
  by (induction l) (auto split: option.splits if_splits)

lemma findEdge_Some:
  "findEdge s edge l = Returns (Some a) \<Longrightarrow>
   \<exists>j \<in> set l. map_of (edges s) j = Some a \<and>
     Src (edge_heap s a) = Src edge \<and> Dst (edge_heap s a) = Dst edge"
  by (induction l) (auto split: option.splits if_splits)

lemma UpsertEdge_unknown:
  assumes "map_of (links s) (Src edge) = None \<or> map_of (links s) (Dst edge) = None"
  shows "UpsertEdge edge draws now s =
           Returns (Some (Errorf ''upsert edge: %w'' ErrUnknownEdgeLinks), edge, s)"
  using assms by (auto simp: UpsertEdge_def)

lemma UpsertEdge_existing:
  assumes "map_of (links s) (Src edge) \<noteq> None" "map_of (links s) (Dst edge) \<noteq> None"
    and "findEdge s edge (edgeList_of s (Src edge)) = Returns (Some a)"
  shows "UpsertEdge edge draws now s =
           Returns (None, (edge_heap s a)\<lparr>UpdatedAt := now\<rparr>,
             s\<lparr>edge_heap := (edge_heap s)(a := (edge_heap s a)\<lparr>UpdatedAt := now\<rparr>)\<rparr>)"
  using assms by (simp add: UpsertEdge_def Let_def)

lemma UpsertEdge_new:
  assumes "map_of (links s) (Src edge) \<noteq> None" "map_of (links s) (Dst edge) \<noteq> None"
    and "findEdge s edge (edgeList_of s (Src edge)) = Returns None"
    and "newID (edges s) draws = Some i"
  shows "UpsertEdge edge draws now s =
           Returns (None, edge\<lparr>Edge.ID := i, UpdatedAt := now\<rparr>,
             s\<lparr>edge_heap := (edge_heap s)(edge_next s := edge\<lparr>Edge.ID := i, UpdatedAt := now\<rparr>),
               edge_next := Suc (edge_next s),
               edges := AList.update i (edge_next s) (edges s),
               linkEdgeMap := AList.update (Src edge)
                 (edgeList_of s (Src edge) @ [i]) (linkEdgeMap s)\<rparr>)"
  using assms by (simp add: UpsertEdge_def Let_def)

lemma UpsertEdge_cases [consumes 1, case_names unknown existing new]:
  assumes "UpsertEdge edge draws now s = Returns (err, edge', s')"
  obtains (unknown) "map_of (links s) (Src edge) = None \<or> map_of (links s) (Dst edge) = None"
  | (existing) a where "map_of (links s) (Src edge) \<noteq> None" "map_of (links s) (Dst edge) \<noteq> None"
      "findEdge s edge (edgeList_of s (Src edge)) = Returns (Some a)"
  | (new) i where "map_of (links s) (Src edge) \<noteq> None" "map_of (links s) (Dst edge) \<noteq> None"
      "findEdge s edge (edgeList_of s (Src edge)) = Returns None"
      "newID (edges s) draws = Some i"
  using assms
  by (auto simp: UpsertEdge_def Let_def split: if_splits outcome.splits option.splits)

lemma Returns_triple_eq:
  "Returns (a, b, c) = Returns (a', b', c') \<Longrightarrow> a' = a \<and> b' = b \<and> c' = c"
  by blast

lemma UpsertEdge_unknownD:
  assumes "map_of (links s) (Src edge) = None \<or> map_of (links s) (Dst edge) = None"
    and "UpsertEdge edge draws now s = Returns (err, edge', s')"
  shows "err = Some (Errorf ''upsert edge: %w'' ErrUnknownEdgeLinks)" "edge' = edge" "s' = s"
  using Returns_triple_eq[OF assms(2)[unfolded UpsertEdge_unknown[OF assms(1)]]] by blast+

lemma UpsertEdge_existingD:
  assumes "map_of (links s) (Src edge) \<noteq> None" "map_of (links s) (Dst edge) \<noteq> None"
    and "findEdge s edge (edgeList_of s (Src edge)) = Returns (Some a)"
    and "UpsertEdge edge draws now s = Returns (err, edge', s')"
  shows "err = None" "edge' = (edge_heap s a)\<lparr>UpdatedAt := now\<rparr>"
    "s' = s\<lparr>edge_heap := (edge_heap s)(a := (edge_heap s a)\<lparr>UpdatedAt := now\<rparr>)\<rparr>"
  using Returns_triple_eq[OF assms(4)[unfolded UpsertEdge_existing[OF assms(1,2,3)]]] by blast+

lemma UpsertEdge_newD:
  assumes "map_of (links s) (Src edge) \<noteq> None" "map_of (links s) (Dst edge) \<noteq> None"
    and "findEdge s edge (edgeList_of s (Src edge)) = Returns None"
    and "newID (edges s) draws = Some i"
    and "UpsertEdge edge draws now s = Returns (err, edge', s')"
  shows "err = None" "edge' = edge\<lparr>Edge.ID := i, UpdatedAt := now\<rparr>"
    "s' = s\<lparr>edge_heap := (edge_heap s)(edge_next s := edge\<lparr>Edge.ID := i, UpdatedAt := now\<rparr>),
               edge_next := Suc (edge_next s),
               edges := AList.update i (edge_next s) (edges s),
               linkEdgeMap := AList.update (Src edge)
                 (edgeList_of s (Src edge) @ [i]) (linkEdgeMap s)\<rparr>"
  using Returns_triple_eq[OF assms(5)[unfolded UpsertEdge_new[OF assms(1,2,3,4)]]] by blast+

lemma UpsertEdge_inv_existing:
  assumes inv: "graph_inv s" and r: "UpsertEdge edge draws now s = Returns (err, edge', s')"
    and ex: "map_of (links s) (Src edge) \<noteq> None" "map_of (links s) (Dst edge) \<noteq> None"
      "findEdge s edge (edgeList_of s (Src edge)) = Returns (Some a)"
  shows "graph_inv s'"
proof -
  note s' = UpsertEdge_existingD(3)[OF ex r]
  have same: "\<And>b. Edge.ID (edge_heap s' b) = Edge.ID (edge_heap s b)"
    "\<And>b. Src (edge_heap s' b) = Src (edge_heap s b)"
    "\<And>b. Dst (edge_heap s' b) = Dst (edge_heap s b)"
    by (simp_all add: s')
  have rest: "links s' = links s" "linkURLIndex s' = linkURLIndex s" "edges s' = edges s"
    "linkEdgeMap s' = linkEdgeMap s" "link_next s' = link_next s" "link_heap s' = link_heap s"
    "edge_next s' = edge_next s"
    by (simp_all add: s')
  have "graph_inv s' = graph_inv s"
    unfolding graph_inv_def links_ok_def index_ok_def edges_ok_def adjacency_ok_def
      pairs_ok_def edgeList_of_def
    by (simp only: same rest)
  then show ?thesis using inv by simp
qed

lemma UpsertEdge_inv_new:
  assumes inv: "graph_inv s" and r: "UpsertEdge edge draws now s = Returns (err, edge', s')"
    and new: "map_of (links s) (Src edge) \<noteq> None" "map_of (links s) (Dst edge) \<noteq> None"
      "findEdge s edge (edgeList_of s (Src edge)) = Returns None"
      "newID (edges s) draws = Some i"
  shows "graph_inv s'"
proof -
  note s' = UpsertEdge_newD(3)[OF new r]
  define n where "n = edge_next s"
  define e where "e = edge\<lparr>Edge.ID := i, UpdatedAt := now\<rparr>"
  have fresh: "map_of (edges s) i = None" using newID_Some[OF new(4)] by simp
  have E: "map_of (edges s') = (map_of (edges s))(i \<mapsto> n)"
    and H: "edge_heap s' = (edge_heap s)(n := e)"
    and N: "edge_next s' = Suc n"
    and A: "\<And>k. edgeList_of s' k =
              (if k = Src edge then edgeList_of s (Src edge) @ [i] else edgeList_of s k)"
    and same: "links s' = links s" "linkURLIndex s' = linkURLIndex s" "link_heap s' = link_heap s"
      "link_next s' = link_next s"
    and dk: "distinct (map fst (edges s'))" "distinct (map fst (linkEdgeMap s'))"
    using distinct_keysD[OF inv]
    by (simp_all add: s' n_def e_def update_conv' distinct_update edgeList_of_def)
  have e_fields: "Edge.ID e = i" "Src e = Src edge" "Dst e = Dst edge"
    by (simp_all add: e_def)
  have old: "\<And>j b. map_of (edges s) j = Some b \<Longrightarrow>
      j \<noteq> i \<and> b \<noteq> n \<and> edge_heap s' b = edge_heap s b \<and> map_of (edges s') j = Some b"
  proof -
    fix j b assume jb: "map_of (edges s) j = Some b"
    have "b < n" using edges_okD(1)[OF inv jb] by (simp add: n_def)
    moreover have "j \<noteq> i" using jb fresh by auto
    ultimately show "j \<noteq> i \<and> b \<noteq> n \<and> edge_heap s' b = edge_heap s b \<and>
        map_of (edges s') j = Some b"
      using jb by (simp add: H E)
  qed
  have inew: "i \<notin> set (edgeList_of s k)" for k
    using adjacency_okD(2)[OF inv, of i k] fresh by auto
  have "links_ok s' = links_ok s" "index_ok s' = index_ok s"
    unfolding links_ok_def index_ok_def same by (rule refl)+
  then have lk: "links_ok s'" and ix: "index_ok s'"
    using inv by (simp_all add: graph_inv_def)
  have ed: "edges_ok s'"
    unfolding edges_ok_def
  proof (rule conjI)
    show "distinct (map fst (edges s'))" by (rule dk)
  next
    show "\<forall>j b. map_of (edges s') j = Some b \<longrightarrow>
       b < edge_next s' \<and> Edge.ID (edge_heap s' b) = j \<and>
       map_of (links s') (Src (edge_heap s' b)) \<noteq> None \<and>
       map_of (links s') (Dst (edge_heap s' b)) \<noteq> None \<and>
       j \<in> set (edgeList_of s' (Src (edge_heap s' b)))"
    proof (intro allI impI)
      fix j b assume jb: "map_of (edges s') j = Some b"
      show "b < edge_next s' \<and> Edge.ID (edge_heap s' b) = j \<and>
       map_of (links s') (Src (edge_heap s' b)) \<noteq> None \<and>
       map_of (links s') (Dst (edge_heap s' b)) \<noteq> None \<and>
       j \<in> set (edgeList_of s' (Src (edge_heap s' b)))"
      proof (cases "j = i")
        case True
        then have "b = n" using jb by (simp add: E)
        then show ?thesis using True new(1,2) by (simp add: N H e_fields same A)
      next
        case False
        then have jb': "map_of (edges s) j = Some b" using jb by (simp add: E)
        note d = edges_okD[OF inv jb']
        have hb: "edge_heap s' b = edge_heap s b" using old[OF jb'] by simp
        show ?thesis using d by (auto simp add: hb N n_def same A)
      qed
    qed
  qed
  have ad: "adjacency_ok s'"
    unfolding adjacency_ok_def
  proof (intro conjI allI ballI)
    show "distinct (map fst (linkEdgeMap s'))" by (rule dk)
  next
    fix src
    show "distinct (edgeList_of s' src)"
      using adjacency_okD(1)[OF inv, of src] inew[of src] by (auto simp add: A)
  next
    fix src j assume j: "j \<in> set (edgeList_of s' src)"
    show "\<exists>a. map_of (edges s') j = Some a \<and> Src (edge_heap s' a) = src"
    proof (cases "j \<in> set (edgeList_of s src)")
      case True
      then obtain a where a: "map_of (edges s) j = Some a" "Src (edge_heap s a) = src"
        using adjacency_okD(2)[OF inv] by blast
      then show ?thesis using old[OF a(1)] by auto
    next
      case False
      then have "j = i \<and> src = Src edge" using j by (auto simp: A split: if_splits)
      then show ?thesis by (simp add: E H e_fields)
    qed
  qed
  have pr: "pairs_ok s'"
    unfolding pairs_ok_def
  proof (intro allI impI)
    fix j a k b
    assume h: "map_of (edges s') j = Some a \<and> map_of (edges s') k = Some b \<and>
        Src (edge_heap s' a) = Src (edge_heap s' b) \<and> Dst (edge_heap s' a) = Dst (edge_heap s' b)"
    have clash: False
      if k: "map_of (edges s) k = Some b" and sb: "Src (edge_heap s b) = Src edge"
        "Dst (edge_heap s b) = Dst edge" for k b
    proof -
      have "k \<in> set (edgeList_of s (Src edge))" using edges_okD(5)[OF inv k] sb by simp
      then show False using findEdge_None[OF new(3) _ k] sb by blast
    qed
    show "j = k"
    proof (cases "j = i")
      case ji: True
      then have an: "a = n" using h by (simp add: E)
      show ?thesis
      proof (cases "k = i")
        case True
        then show ?thesis using ji by simp
      next
        case False
        then have kb: "map_of (edges s) k = Some b" using h by (simp add: E)
        have "edge_heap s' b = edge_heap s b" using old[OF kb] by simp
        then have "Src (edge_heap s b) = Src edge" "Dst (edge_heap s b) = Dst edge"
          using h an by (simp_all add: H e_fields)
        then show ?thesis using clash[OF kb] by simp
      qed
    next
      case jni: False
      then have ja: "map_of (edges s) j = Some a" using h by (simp add: E)
      have ha: "edge_heap s' a = edge_heap s a" using old[OF ja] by simp
      show ?thesis
      proof (cases "k = i")
        case True
        then have "b = n" using h by (simp add: E)
        then have "Src (edge_heap s a) = Src edge" "Dst (edge_heap s a) = Dst edge"
          using h ha by (simp_all add: H e_fields)
        then show ?thesis using clash[OF ja] by simp
      next
        case False
        then have kb: "map_of (edges s) k = Some b" using h by (simp add: E)
        have hb: "edge_heap s' b = edge_heap s b" using old[OF kb] by simp
        show ?thesis using pairs_okD[OF inv ja kb] h ha hb by simp
      qed
    qed
  qed
  show ?thesis using lk ix ed ad pr by (simp add: graph_inv_def)
qed

lemma UpsertEdge_inv:
  assumes inv: "graph_inv s" and r: "UpsertEdge edge draws now s = Returns (err, edge', s')"
  shows "graph_inv s'"
  using r
proof (cases rule: UpsertEdge_cases)
  case unknown
  then show ?thesis using UpsertEdge_unknownD(3)[OF _ r] inv by simp
next
  case (existing a)
  then show ?thesis using UpsertEdge_inv_existing[OF inv r] by simp
next
  case (new i)
  then show ?thesis using UpsertEdge_inv_new[OF inv r] by simp
qed

lemma staleEdge_delete: "k \<noteq> j \<Longrightarrow> staleEdge h t (AList.delete j es) k = staleEdge h t es k"
  by (simp add: staleEdge_def)

lemma map_of_fold_delete:
  "map_of (fold AList.delete ks es) k = (if k \<in> set ks then None else map_of es k)"
  by (induction ks arbitrary: es) (auto simp: delete_conv')

lemma distinct_fold_delete:
  "distinct (map fst es) \<Longrightarrow> distinct (map fst (fold AList.delete ks es))"
  by (induction ks arbitrary: es) (auto simp: distinct_delete)

lemma pruneEdges_result:
  assumes "distinct l" "\<And>j. j \<in> set l \<Longrightarrow> map_of es j \<noteq> None"
  shows "pruneEdges h t l es acc =
           Returns (fold AList.delete (filter (staleEdge h t es) l) es,
                    acc @ filter (\<lambda>j. \<not> staleEdge h t es j) l)"
  using assms
proof (induction l arbitrary: es acc)
  case Nil
  then show ?case by simp
next
  case (Cons j rest)
  obtain a where a: "map_of es j = Some a" using Cons.prems(2)[of j] by auto
  have jr: "j \<notin> set rest" "distinct rest" using Cons.prems(1) by simp_all
  show ?case
  proof (cases "UpdatedAt (h a) < t")
    case True
    have st: "staleEdge h t es j" using a True by (simp add: staleEdge_def)
    have pres: "\<And>k. k \<in> set rest \<Longrightarrow> map_of (AList.delete j es) k \<noteq> None"
      using Cons.prems(2) jr(1) by (auto simp: delete_conv')
    have f1: "filter (staleEdge h t (AList.delete j es)) rest = filter (staleEdge h t es) rest"
      using jr(1) by (intro filter_cong refl staleEdge_delete) auto
    have f2: "filter (\<lambda>k. \<not> staleEdge h t (AList.delete j es) k) rest
            = filter (\<lambda>k. \<not> staleEdge h t es k) rest"
      using jr(1) by (intro filter_cong refl arg_cong[where f=Not] staleEdge_delete) auto
    show ?thesis
      using Cons.IH[OF jr(2) pres, of acc] a True st by (simp add: f1 f2)
  next
    case False
    have st: "\<not> staleEdge h t es j" using a False by (simp add: staleEdge_def)
    have pres: "\<And>k. k \<in> set rest \<Longrightarrow> map_of es k \<noteq> None"
      using Cons.prems(2) by simp
    show ?thesis
      using Cons.IH[OF jr(2) pres, of "acc @ [j]"] a False st by simp
  qed
qed

lemma Returns_pair_eq: "Returns (a, b) = Returns (a', b') \<Longrightarrow> a' = a \<and> b' = b"
  by blast

lemma RemoveStaleEdges_result:
  assumes inv: "graph_inv s"
  shows "RemoveStaleEdges fromID t s =
     Returns (None,
       s\<lparr>edges := fold AList.delete
            (filter (staleEdge (edge_heap s) t (edges s)) (edgeList_of s fromID)) (edges s),
         linkEdgeMap := AList.update fromID
            (filter (\<lambda>j. \<not> staleEdge (edge_heap s) t (edges s) j) (edgeList_of s fromID))
            (linkEdgeMap s)\<rparr>)"
proof -
  have d: "distinct (edgeList_of s fromID)" by (rule adjacency_okD(1)[OF inv])
  have p: "\<And>j. j \<in> set (edgeList_of s fromID) \<Longrightarrow> map_of (edges s) j \<noteq> None"
    using adjacency_okD(2)[OF inv] by fastforce
  have pe: "pruneEdges (edge_heap s) t (edgeList_of s fromID) (edges s) [] =
      Returns (fold AList.delete
            (filter (staleEdge (edge_heap s) t (edges s)) (edgeList_of s fromID)) (edges s),
          filter (\<lambda>j. \<not> staleEdge (edge_heap s) t (edges s) j) (edgeList_of s fromID))"
    using pruneEdges_result[OF d p, of "edge_heap s" t "[]"] by simp
  show ?thesis
    by (simp add: RemoveStaleEdges_def pe)
qed

lemma RemoveStaleEdges_inv:
  assumes inv: "graph_inv s" and r: "RemoveStaleEdges fromID t s = Returns (err, s')"
  shows "graph_inv s'"
proof -
  define l where "l = edgeList_of s fromID"
  define S where "S = staleEdge (edge_heap s) t (edges s)"
  have s': "s' = s\<lparr>edges := fold AList.delete (filter S l) (edges s),
         linkEdgeMap := AList.update fromID (filter (\<lambda>j. \<not> S j) l) (linkEdgeMap s)\<rparr>"
    using Returns_pair_eq[OF r[unfolded RemoveStaleEdges_result[OF inv]]]
    by (simp add: l_def S_def)
  have E: "\<And>k. map_of (edges s') k = (if k \<in> set l \<and> S k then None else map_of (edges s) k)"
    and A: "\<And>k. edgeList_of s' k = (if k = fromID then filter (\<lambda>j. \<not> S j) l else edgeList_of s k)"
    and same: "links s' = links s" "linkURLIndex s' = linkURLIndex s" "link_heap s' = link_heap s"
      "link_next s' = link_next s" "edge_heap s' = edge_heap s" "edge_next s' = edge_next s"
    and dk: "distinct (map fst (edges s'))" "distinct (map fst (linkEdgeMap s'))"
    using distinct_keysD[OF inv]
    by (simp_all add: s' map_of_fold_delete distinct_fold_delete update_conv' distinct_update
        edgeList_of_def)
  have "links_ok s' = links_ok s" "index_ok s' = index_ok s"
    unfolding links_ok_def index_ok_def same by (rule refl)+
  then have lk: "links_ok s'" and ix: "index_ok s'"
    using inv by (simp_all add: graph_inv_def)
  have kept: "map_of (edges s) j = Some b \<and> \<not> (j \<in> set l \<and> S j)"
    if "map_of (edges s') j = Some b" for j b
    using that by (simp add: E split: if_splits)
  have ed: "edges_ok s'"
    unfolding edges_ok_def
  proof (rule conjI)
    show "distinct (map fst (edges s'))" by (rule dk)
  next
    show "\<forall>j b. map_of (edges s') j = Some b \<longrightarrow>
       b < edge_next s' \<and> Edge.ID (edge_heap s' b) = j \<and>
       map_of (links s') (Src (edge_heap s' b)) \<noteq> None \<and>
       map_of (links s') (Dst (edge_heap s' b)) \<noteq> None \<and>
       j \<in> set (edgeList_of s' (Src (edge_heap s' b)))"
    proof (intro allI impI)
      fix j b assume jb: "map_of (edges s') j = Some b"
      note k = kept[OF jb]
      note d = edges_okD[OF inv conjunct1[OF k]]
      have "j \<in> set (edgeList_of s' (Src (edge_heap s b)))"
        using d(5) k by (auto simp: A l_def)
      then show "b < edge_next s' \<and> Edge.ID (edge_heap s' b) = j \<and>
       map_of (links s') (Src (edge_heap s' b)) \<noteq> None \<and>
       map_of (links s') (Dst (edge_heap s' b)) \<noteq> None \<and>
       j \<in> set (edgeList_of s' (Src (edge_heap s' b)))"
        using d by (simp add: same)
    qed
  qed
  have ad: "adjacency_ok s'"
    unfolding adjacency_ok_def
  proof (intro conjI allI ballI)
    show "distinct (map fst (linkEdgeMap s'))" by (rule dk)
  next
    fix src
    show "distinct (edgeList_of s' src)"
      using adjacency_okD(1)[OF inv, of src] adjacency_okD(1)[OF inv, of fromID]
      by (auto simp: A l_def)
  next
    fix src j assume j: "j \<in> set (edgeList_of s' src)"
    have j0: "j \<in> set (edgeList_of s src)" and ns: "src = fromID \<Longrightarrow> \<not> S j"
      using j by (auto simp: A l_def split: if_splits)
    obtain a where a: "map_of (edges s) j = Some a" "Src (edge_heap s a) = src"
      using adjacency_okD(2)[OF inv j0] by blast
    have "\<not> (j \<in> set l \<and> S j)"
    proof
      assume h: "j \<in> set l \<and> S j"
      then obtain a' where "map_of (edges s) j = Some a'" "Src (edge_heap s a') = fromID"
        using adjacency_okD(2)[OF inv, of j fromID] by (auto simp: l_def)
      then have "src = fromID" using a by simp
      then show False using ns h by simp
    qed
    then show "\<exists>a. map_of (edges s') j = Some a \<and> Src (edge_heap s' a) = src"
      using a by (auto simp: E same)
  qed
  have pr: "pairs_ok s'"
    unfolding pairs_ok_def
  proof (intro allI impI)
    fix j a k b
    assume h: "map_of (edges s') j = Some a \<and> map_of (edges s') k = Some b \<and>
        Src (edge_heap s' a) = Src (edge_heap s' b) \<and> Dst (edge_heap s' a) = Dst (edge_heap s' b)"
    have ja: "map_of (edges s) j = Some a" and kb: "map_of (edges s) k = Some b"
      using h kept by blast+
    show "j = k" using pairs_okD[OF inv ja kb] h by (simp add: same)
  qed
  show ?thesis using lk ix ed ad pr by (simp add: graph_inv_def)
qed

lemma NewInMemoryGraph_inv: "graph_inv NewInMemoryGraph"
  by (simp add: graph_inv_def links_ok_def index_ok_def edges_ok_def adjacency_ok_def
      pairs_ok_def NewInMemoryGraph_def edgeList_of_def)

lemma step_inv:
  assumes "graph_inv s" "step c s = Returns s'"
  shows "graph_inv s'"
proof (cases c)
  case (CallUpsertLink link draws)
  then show ?thesis
    using assms UpsertLink_inv[OF assms(1)]
    by (auto split: outcome.splits)
next
  case (CallFindLink linkID)
  then show ?thesis using assms FindLink_inv[OF assms(1), of linkID] by auto
next
  case (CallUpsertEdge edge draws now)
  then show ?thesis
    using assms UpsertEdge_inv[OF assms(1)]
    by (auto split: outcome.splits)
next
  case (CallRemoveStaleEdges fromID t)
  then show ?thesis
    using assms RemoveStaleEdges_inv[OF assms(1)]
    by (auto split: outcome.splits)
next
  case (CallLinks a b t)
  then show ?thesis using assms by auto
next
  case (CallEdges a b t)
  then show ?thesis using assms by (auto split: outcome.splits)
qed

lemma reachable_inv: "reachable s \<Longrightarrow> graph_inv s"
  by (induction rule: reachable.induct) (auto intro: NewInMemoryGraph_inv step_inv)

section \<open>The scenario, evaluated\<close>

lemmas eval_simps = ex_calls_def UpsertLink_def FindLink_def UpsertEdge_def RemoveStaleEdges_def
  Links_def Edges_def NewInMemoryGraph_def edgeList_of_def Let_def uuid_String_less uuid_String_le

lemma run_reachable: "reachable s \<Longrightarrow> run cs s = Returns s' \<Longrightarrow> reachable s'"
proof (induction cs arbitrary: s)
  case Nil
  then show ?case by simp
next
  case (Cons c cs)
  then show ?case
    by (cases "step c s") (auto intro: reachable_step)
qed

lemma ex_run: "run ex_calls NewInMemoryGraph = Returns ex_graph"
  unfolding ex_graph_def by (simp add: eval_simps)

lemma ex_reachable: "reachable ex_graph"
  using run_reachable[OF reachable_new ex_run] .

lemma ex_fields:
  "links ex_graph = [(7, 0), (9, 1)]"
  "linkURLIndex ex_graph = [(''a'', 0), (''b'', 1)]"
  "edges ex_graph = [(5, 0), (6, 1)]"
  "linkEdgeMap ex_graph = [(7, [5]), (9, [6])]"
  "link_next ex_graph = 2" "edge_next ex_graph = 2"
  "link_heap ex_graph 0 = \<lparr>Link.ID = 7, URL = ''a'', RetrievedAt = 100\<rparr>"
  "link_heap ex_graph 1 = \<lparr>Link.ID = 9, URL = ''b'', RetrievedAt = 90\<rparr>"
  "edge_heap ex_graph 0 = \<lparr>Edge.ID = 5, Src = 7, Dst = 9, UpdatedAt = 1001\<rparr>"
  "edge_heap ex_graph 1 = \<lparr>Edge.ID = 6, Src = 9, Dst = 7, UpdatedAt = 1002\<rparr>"
  "link_heap ex_graph (Suc 0) = \<lparr>Link.ID = 9, URL = ''b'', RetrievedAt = 90\<rparr>"
  "edge_heap ex_graph (Suc 0) = \<lparr>Edge.ID = 6, Src = 9, Dst = 7, UpdatedAt = 1002\<rparr>"
  unfolding ex_graph_def by (simp_all add: eval_simps)

lemma newID_fresh_draw:
  "\<exists>d \<in> set draws. map_of m d = None \<Longrightarrow> \<exists>i. newID m draws = Some i"
  using newID_None[of m draws] by (cases "newID m draws") auto

lemma findEdge_total:
  assumes "graph_inv s"
  shows "\<exists>r. findEdge s edge (edgeList_of s k) = Returns r"
proof -
  have "findEdge s edge (edgeList_of s k) \<noteq> Panics"
    using adjacency_okD(2)[OF assms, of _ k] by (intro findEdge_not_Panics) fastforce
  then show ?thesis
    using findEdge_not_Spins[of s edge "edgeList_of s k"]
    by (cases "findEdge s edge (edgeList_of s k)") auto
qed

lemma collectEdges_result:
  assumes "\<And>j. j \<in> set l \<Longrightarrow> map_of (edges s) j \<noteq> None"
  shows "collectEdges s t l acc =
           Returns (acc @ filter (\<lambda>a. UpdatedAt (edge_heap s a) < t)
                            (map (\<lambda>j. the (map_of (edges s) j)) l))"
  using assms
proof (induction l arbitrary: acc)
  case Nil
  then show ?case by simp
next
  case (Cons j rest)
  obtain a where a: "map_of (edges s) j = Some a" using Cons.prems[of j] by auto
  have "\<And>k. k \<in> set rest \<Longrightarrow> map_of (edges s) k \<noteq> None" using Cons.prems by simp
  then show ?case using Cons.IH a by simp
qed

lemma scanLinks_result:
  assumes inv: "graph_inv s"
  shows "scanLinks s from to t ls acc =
           Returns (acc @ concat (map (\<lambda>(linkID, link).
               filter (\<lambda>a. UpdatedAt (edge_heap s a) < t)
                 (map (\<lambda>j. the (map_of (edges s) j)) (edgeList_of s linkID)))
             (filter (\<lambda>(linkID, link). inRange from to linkID) ls)))"
proof (induction ls arbitrary: acc)
  case Nil
  then show ?case by simp
next
  case (Cons p rest)
  obtain linkID link where p: "p = (linkID, link)" by (cases p)
  have ce: "\<And>acc. collectEdges s t (edgeList_of s linkID) acc =
           Returns (acc @ filter (\<lambda>a. UpdatedAt (edge_heap s a) < t)
                            (map (\<lambda>j. the (map_of (edges s) j)) (edgeList_of s linkID)))"
    using adjacency_okD(2)[OF inv, of _ linkID] by (intro collectEdges_result) fastforce
  show ?case
    by (simp add: p Cons.IH ce inRange_def)
qed

lemma Edges_result:
  assumes inv: "graph_inv s"
  shows "\<exists>list. Edges fromID toID t s = Returns (list, None) \<and>
     set list = {a \<in> snd ` set (edges s).
                  fromID \<le> Src (edge_heap s a) \<and> Src (edge_heap s a) < toID \<and>
                  UpdatedAt (edge_heap s a) < t}"
proof -
  let ?list = "concat (map (\<lambda>(linkID, link).
               filter (\<lambda>a. UpdatedAt (edge_heap s a) < t)
                 (map (\<lambda>j. the (map_of (edges s) j)) (edgeList_of s linkID)))
             (filter (\<lambda>(linkID, link). inRange (uuid_String fromID) (uuid_String toID) linkID)
                (links s)))"
  have e: "Edges fromID toID t s = Returns (?list, None)"
    by (simp add: Edges_def scanLinks_result[OF inv])
  have rng: "\<And>k. inRange (uuid_String fromID) (uuid_String toID) k = (fromID \<le> k \<and> k < toID)"
    by (auto simp: inRange_def uuid_String_less uuid_String_le not_less)
  have "set ?list = {a \<in> snd ` set (edges s).
                  fromID \<le> Src (edge_heap s a) \<and> Src (edge_heap s a) < toID \<and>
                  UpdatedAt (edge_heap s a) < t}" (is "?L = ?R")
  proof (intro set_eqI iffI)
    fix a assume "a \<in> ?L"
    then obtain linkID link j where
      l: "(linkID, link) \<in> set (links s)" "fromID \<le> linkID \<and> linkID < toID"
      and j: "j \<in> set (edgeList_of s linkID)" "a = the (map_of (edges s) j)"
      and u: "UpdatedAt (edge_heap s a) < t"
      by (auto simp: rng)
    obtain a' where a': "map_of (edges s) j = Some a'" "Src (edge_heap s a') = linkID"
      using adjacency_okD(2)[OF inv j(1)] by blast
    then have "a = a'" using j(2) by simp
    then show "a \<in> ?R" using a' l u map_of_SomeD[OF a'(1)] by force
  next
    fix a assume "a \<in> ?R"
    then obtain j where j: "(j, a) \<in> set (edges s)"
      and r: "fromID \<le> Src (edge_heap s a)" "Src (edge_heap s a) < toID"
        "UpdatedAt (edge_heap s a) < t"
      by auto
    have ja: "map_of (edges s) j = Some a"
      using j distinct_keysD(3)[OF inv] by simp
    note d = edges_okD[OF inv ja]
    obtain p where p: "map_of (links s) (Src (edge_heap s a)) = Some p" using d(3) by auto
    have "(Src (edge_heap s a), p) \<in> set (links s)" by (rule map_of_SomeD[OF p])
    then show "a \<in> ?L" using d(5) ja r by (force simp: rng)
  qed
  then show ?thesis using e by blast
qed

lemma Edges_not_Panics: "graph_inv s \<Longrightarrow> Edges fromID toID t s \<noteq> Panics"
  using Edges_result[of s fromID toID t] by auto

lemma UpsertEdge_not_Panics:
  assumes inv: "graph_inv s"
  shows "UpsertEdge edge draws now s \<noteq> Panics"
proof -
  obtain r where r: "findEdge s edge (edgeList_of s (Src edge)) = Returns r"
    using findEdge_total[OF inv] by blast
  show ?thesis
    using r by (simp add: UpsertEdge_def Let_def split: option.splits)
qed

lemma RemoveStaleEdges_effect:
  assumes inv: "graph_inv s" and r: "RemoveStaleEdges src t s = Returns (err, s')"
  shows "err = None"
    "map_of (edges s') eid =
       (case map_of (edges s) eid of
          None \<Rightarrow> None
        | Some a \<Rightarrow> if Src (edge_heap s a) = src \<and> UpdatedAt (edge_heap s a) < t
                    then None else Some a)"
    "edgeList_of s' k =
       (if k = src
        then filter (\<lambda>j. \<not> staleEdge (edge_heap s) t (edges s) j) (edgeList_of s src)
        else edgeList_of s k)"
    "edge_heap s' = edge_heap s" "edge_next s' = edge_next s" "links s' = links s"
    "linkURLIndex s' = linkURLIndex s" "link_heap s' = link_heap s" "link_next s' = link_next s"
proof -
  define l where "l = edgeList_of s src"
  define S where "S = staleEdge (edge_heap s) t (edges s)"
  have e: "err = None" and s': "s' = s\<lparr>edges := fold AList.delete (filter S l) (edges s),
         linkEdgeMap := AList.update src (filter (\<lambda>j. \<not> S j) l) (linkEdgeMap s)\<rparr>"
    using Returns_pair_eq[OF r[unfolded RemoveStaleEdges_result[OF inv]]]
    by (simp_all add: l_def S_def)
  show "err = None" by (rule e)
  show "edge_heap s' = edge_heap s" "edge_next s' = edge_next s" "links s' = links s"
    "linkURLIndex s' = linkURLIndex s" "link_heap s' = link_heap s" "link_next s' = link_next s"
    by (simp_all add: s')
  show "edgeList_of s' k =
       (if k = src
        then filter (\<lambda>j. \<not> staleEdge (edge_heap s) t (edges s) j) (edgeList_of s src)
        else edgeList_of s k)"
    by (simp add: s' edgeList_of_def update_conv' S_def l_def)
  have iff: "(eid \<in> set l \<and> S eid) =
      (\<exists>a. map_of (edges s) eid = Some a \<and> Src (edge_heap s a) = src \<and> UpdatedAt (edge_heap s a) < t)"
  proof
    assume h: "eid \<in> set l \<and> S eid"
    then obtain a where a: "map_of (edges s) eid = Some a" "Src (edge_heap s a) = src"
      using adjacency_okD(2)[OF inv, of eid src] by (auto simp: l_def)
    then show "\<exists>a. map_of (edges s) eid = Some a \<and> Src (edge_heap s a) = src \<and>
        UpdatedAt (edge_heap s a) < t"
      using h by (simp add: S_def staleEdge_def)
  next
    assume "\<exists>a. map_of (edges s) eid = Some a \<and> Src (edge_heap s a) = src \<and>
        UpdatedAt (edge_heap s a) < t"
    then obtain a where a: "map_of (edges s) eid = Some a" "Src (edge_heap s a) = src"
      "UpdatedAt (edge_heap s a) < t" by blast
    then show "eid \<in> set l \<and> S eid"
      using edges_okD(5)[OF inv a(1)] by (simp add: l_def S_def staleEdge_def)
  qed
  have "map_of (edges s') eid = (if eid \<in> set l \<and> S eid then None else map_of (edges s) eid)"
    by (simp add: s' map_of_fold_delete)
  then show "map_of (edges s') eid =
       (case map_of (edges s) eid of
          None \<Rightarrow> None
        | Some a \<Rightarrow> if Src (edge_heap s a) = src \<and> UpdatedAt (edge_heap s a) < t
                    then None else Some a)"
    unfolding iff by (auto split: option.splits)
qed

lemma RemoveStaleEdges_idem:
  assumes inv: "graph_inv s" and r: "RemoveStaleEdges src t s = Returns (err, s')"
  shows "RemoveStaleEdges src t s' = Returns (None, s')"
proof -
  note inv' = RemoveStaleEdges_inv[OF inv r]
  note eff = RemoveStaleEdges_effect[OF inv r]
  define l' where "l' = edgeList_of s' src"
  have l'_def2: "l' = filter (\<lambda>j. \<not> staleEdge (edge_heap s) t (edges s) j) (edgeList_of s src)"
    by (simp add: l'_def eff(3))
  have ns: "\<not> staleEdge (edge_heap s') t (edges s') j" if "j \<in> set l'" for j
  proof -
    have a: "\<not> staleEdge (edge_heap s) t (edges s) j" using that by (simp add: l'_def2)
    then show ?thesis
      by (auto simp: staleEdge_def eff(2)[of j] eff(4) split: option.splits if_splits)
  qed
  have f1: "filter (staleEdge (edge_heap s') t (edges s')) l' = []"
    using ns by (simp add: filter_empty_conv)
  have f2: "filter (\<lambda>j. \<not> staleEdge (edge_heap s') t (edges s') j) l' = l'"
    using ns by (simp add: filter_id_conv)
  have lk: "map_of (linkEdgeMap s') src = Some l'"
  proof -
    have "linkEdgeMap s' = AList.update src l' (linkEdgeMap s)"
      using Returns_pair_eq[OF r[unfolded RemoveStaleEdges_result[OF inv]]]
      by (simp add: l'_def2)
    then show ?thesis by (simp add: update_conv')
  qed
  show ?thesis
    unfolding RemoveStaleEdges_result[OF inv'] l'_def[symmetric] f1 f2
    by (simp add: update_triv[OF lk])
qed

lemma UpsertLink_link_heap:
  assumes r: "UpsertLink link draws s = Returns (err, link', s')" and p: "p < link_next s"
  shows "link_heap s' p =
     (if map_of (linkURLIndex s) (URL link) = Some p
      then link\<lparr>Link.ID := Link.ID (link_heap s p),
                RetrievedAt := max (RetrievedAt (link_heap s p)) (RetrievedAt link)\<rparr>
      else link_heap s p)"
  using r
proof (cases rule: UpsertLink_cases)
  case (existing a)
  show ?thesis using existing by (simp add: UpsertLink_existingD(3)[OF existing r])
next
  case (new i)
  show ?thesis using new p by (simp add: UpsertLink_newD(3)[OF new r])
qed

lemma UpsertLink_index:
  assumes r: "UpsertLink link draws s = Returns (err, link', s')"
  shows "map_of (linkURLIndex s') u =
     (if u = URL link \<and> map_of (linkURLIndex s) u = None then Some (link_next s)
      else map_of (linkURLIndex s) u)"
    "link_next s \<le> link_next s'"
    "edge_heap s' = edge_heap s" "edge_next s' = edge_next s" "edges s' = edges s"
    "linkEdgeMap s' = linkEdgeMap s"
proof -
  have "map_of (linkURLIndex s') u =
     (if u = URL link \<and> map_of (linkURLIndex s) u = None then Some (link_next s)
      else map_of (linkURLIndex s) u) \<and> link_next s \<le> link_next s' \<and>
    edge_heap s' = edge_heap s \<and> edge_next s' = edge_next s \<and> edges s' = edges s \<and>
    linkEdgeMap s' = linkEdgeMap s"
    using r
  proof (cases rule: UpsertLink_cases)
    case (existing a)
    show ?thesis using existing by (auto simp add: UpsertLink_existingD(3)[OF existing r])
  next
    case (new i)
    show ?thesis using new by (auto simp add: UpsertLink_newD(3)[OF new r] update_conv')
  qed
  then show "map_of (linkURLIndex s') u =
     (if u = URL link \<and> map_of (linkURLIndex s) u = None then Some (link_next s)
      else map_of (linkURLIndex s) u)"
    "link_next s \<le> link_next s'"
    "edge_heap s' = edge_heap s" "edge_next s' = edge_next s" "edges s' = edges s"
    "linkEdgeMap s' = linkEdgeMap s"
    by blast+
qed

lemma FindLink_frame:
  "linkURLIndex (snd (FindLink linkID s)) = linkURLIndex s"
  "links (snd (FindLink linkID s)) = links s"
  "link_next s \<le> link_next (snd (FindLink linkID s))"
  "p < link_next s \<Longrightarrow> link_heap (snd (FindLink linkID s)) p = link_heap s p"
  "edge_heap (snd (FindLink linkID s)) = edge_heap s"
  "edge_next (snd (FindLink linkID s)) = edge_next s"
  "edges (snd (FindLink linkID s)) = edges s"
  "linkEdgeMap (snd (FindLink linkID s)) = linkEdgeMap s"
  by (simp_all add: FindLink_def Let_def split: option.splits)

lemma UpsertEdge_frame:
  assumes r: "UpsertEdge edge draws now s = Returns (err, edge', s')"
  shows "linkURLIndex s' = linkURLIndex s" "links s' = links s" "link_next s' = link_next s"
    "link_heap s' = link_heap s" "edge_next s \<le> edge_next s'"
proof -
  have "linkURLIndex s' = linkURLIndex s \<and> links s' = links s \<and> link_next s' = link_next s \<and>
    link_heap s' = link_heap s \<and> edge_next s \<le> edge_next s'"
    using r
  proof (cases rule: UpsertEdge_cases)
    case unknown
    show ?thesis by (simp add: UpsertEdge_unknownD(3)[OF unknown r])
  next
    case (existing a)
    show ?thesis by (simp add: UpsertEdge_existingD(3)[OF existing r])
  next
    case (new i)
    show ?thesis by (simp add: UpsertEdge_newD(3)[OF new r])
  qed
  then show "linkURLIndex s' = linkURLIndex s" "links s' = links s" "link_next s' = link_next s"
    "link_heap s' = link_heap s" "edge_next s \<le> edge_next s'"
    by blast+
qed

lemma UpsertEdge_edge_heap:
  assumes r: "UpsertEdge edge draws now s = Returns (err, edge', s')" and p: "p < edge_next s"
  shows "edge_heap s' p =
     (if map_of (links s) (Src edge) \<noteq> None \<and> map_of (links s) (Dst edge) \<noteq> None \<and>
         findEdge s edge (edgeList_of s (Src edge)) = Returns (Some p)
      then (edge_heap s p)\<lparr>UpdatedAt := now\<rparr> else edge_heap s p)"
  using r
proof (cases rule: UpsertEdge_cases)
  case unknown
  then show ?thesis by (auto simp add: UpsertEdge_unknownD(3)[OF unknown r])
next
  case (existing a)
  show ?thesis using existing by (simp add: UpsertEdge_existingD(3)[OF existing r])
next
  case (new i)
  show ?thesis using new p by (simp add: UpsertEdge_newD(3)[OF new r])
qed

lemma RemoveStaleEdges_frame:
  assumes r: "RemoveStaleEdges src t s = Returns (err, s')"
  shows "linkURLIndex s' = linkURLIndex s" "links s' = links s" "link_next s' = link_next s"
    "link_heap s' = link_heap s" "edge_heap s' = edge_heap s" "edge_next s' = edge_next s"
  using r by (auto simp: RemoveStaleEdges_def split: outcome.splits prod.splits)

lemma step_link_frame:
  assumes st: "step c s = Returns s'"
  shows "link_next s \<le> link_next s'"
    "map_of (linkURLIndex s) u = Some a \<Longrightarrow> map_of (linkURLIndex s') u = Some a"
proof -
  have "link_next s \<le> link_next s' \<and>
    (map_of (linkURLIndex s) u = Some a \<longrightarrow> map_of (linkURLIndex s') u = Some a)"
  proof (cases c)
    case (CallUpsertLink link draws)
    then obtain err link' where r: "UpsertLink link draws s = Returns (err, link', s')"
      using st by (auto split: outcome.splits)
    show ?thesis using UpsertLink_index(1,2)[OF r] by simp
  next
    case (CallFindLink linkID)
    then show ?thesis using st by (auto simp: FindLink_frame)
  next
    case (CallUpsertEdge edge draws now)
    then obtain err edge' where r: "UpsertEdge edge draws now s = Returns (err, edge', s')"
      using st by (auto split: outcome.splits)
    show ?thesis using UpsertEdge_frame[OF r] by simp
  next
    case (CallRemoveStaleEdges src t)
    then obtain err where r: "RemoveStaleEdges src t s = Returns (err, s')"
      using st by (auto split: outcome.splits)
    show ?thesis using RemoveStaleEdges_frame[OF r] by simp
  next
    case (CallLinks x y z)
    then show ?thesis using st by simp
  next
    case (CallEdges x y z)
    then show ?thesis using st by (auto split: outcome.splits)
  qed
  then show "link_next s \<le> link_next s'"
    "map_of (linkURLIndex s) u = Some a \<Longrightarrow> map_of (linkURLIndex s') u = Some a"
    by blast+
qed

lemma step_link_heap:
  assumes st: "step c s = Returns s'" and p: "p < link_next s"
  shows "link_heap s' p =
     (case c of
        CallUpsertLink link draws \<Rightarrow>
          if map_of (linkURLIndex s) (URL link) = Some p
          then link\<lparr>Link.ID := Link.ID (link_heap s p),
                    RetrievedAt := max (RetrievedAt (link_heap s p)) (RetrievedAt link)\<rparr>
          else link_heap s p
      | _ \<Rightarrow> link_heap s p)"
proof (cases c)
  case (CallUpsertLink link draws)
  then obtain err link' where r: "UpsertLink link draws s = Returns (err, link', s')"
    using st by (auto split: outcome.splits)
  show ?thesis using UpsertLink_link_heap[OF r p] CallUpsertLink by simp
next
  case (CallFindLink linkID)
  then show ?thesis using st p by (auto simp: FindLink_frame)
next
  case (CallUpsertEdge edge draws now)
  then obtain err edge' where r: "UpsertEdge edge draws now s = Returns (err, edge', s')"
    using st by (auto split: outcome.splits)
  show ?thesis using UpsertEdge_frame[OF r] CallUpsertEdge by simp
next
  case (CallRemoveStaleEdges src t)
  then obtain err where r: "RemoveStaleEdges src t s = Returns (err, s')"
    using st by (auto split: outcome.splits)
  show ?thesis using RemoveStaleEdges_frame[OF r] CallRemoveStaleEdges by simp
next
  case (CallLinks x y z)
  then show ?thesis using st by simp
next
  case (CallEdges x y z)
  then show ?thesis using st by (auto split: outcome.splits)
qed

lemma step_index_None:
  assumes st: "step c s = Returns s'" and n: "map_of (linkURLIndex s) u = None"
  shows "(case c of
            CallUpsertLink link draws \<Rightarrow>
              if URL link = u
              then map_of (linkURLIndex s') u = Some (link_next s) \<and>
                   RetrievedAt (link_heap s' (link_next s)) = RetrievedAt link
              else map_of (linkURLIndex s') u = None
          | _ \<Rightarrow> map_of (linkURLIndex s') u = None)"
proof (cases c)
  case (CallUpsertLink link draws)
  then obtain err link' where r: "UpsertLink link draws s = Returns (err, link', s')"
    using st by (auto split: outcome.splits)
  show ?thesis
  proof (cases "URL link = u")
    case True
    from r obtain i where new: "map_of (linkURLIndex s) (URL link) = None"
      "newID (links s) draws = Some i"
    proof (cases rule: UpsertLink_cases)
      case (existing a)
      then show ?thesis using n True by simp
    next
      case (new i)
      then show ?thesis using that by blast
    qed
    show ?thesis using True CallUpsertLink
      by (simp add: UpsertLink_newD(3)[OF new r] update_conv')
  next
    case False
    then show ?thesis using UpsertLink_index(1)[OF r, of u] n CallUpsertLink by simp
  qed
next
  case (CallFindLink linkID)
  then show ?thesis using st n by (auto simp: FindLink_frame)
next
  case (CallUpsertEdge edge draws now)
  then obtain err edge' where r: "UpsertEdge edge draws now s = Returns (err, edge', s')"
    using st by (auto split: outcome.splits)
  show ?thesis using UpsertEdge_frame[OF r] n CallUpsertEdge by simp
next
  case (CallRemoveStaleEdges src t)
  then obtain err where r: "RemoveStaleEdges src t s = Returns (err, s')"
    using st by (auto split: outcome.splits)
  show ?thesis using RemoveStaleEdges_frame[OF r] n CallRemoveStaleEdges by simp
next
  case (CallLinks x y z)
  then show ?thesis using st n by simp
next
  case (CallEdges x y z)
  then show ?thesis using st n by (auto split: outcome.splits)
qed

lemma step_storedRetrievedAt:
  assumes inv: "graph_inv s" and st: "step c s = Returns s'"
  shows "storedRetrievedAt s' u = foldl newer (storedRetrievedAt s u) (submitted u [c])"
proof (cases "map_of (linkURLIndex s) u")
  case None
  show ?thesis
    using step_index_None[OF st None] None
    by (cases c) (auto simp: storedRetrievedAt_def newer_def)
next
  case (Some a)
  note d = index_okD[OF inv Some]
  have ix: "map_of (linkURLIndex s') u = Some a" by (rule step_link_frame(2)[OF st Some])
  have other: "map_of (linkURLIndex s) v \<noteq> Some a" if "v \<noteq> u" for v
    using index_okD(2)[OF inv, of v a] d(2) that by auto
  show ?thesis
    using step_link_heap[OF st d(1)] Some ix other
    by (cases c) (auto simp: storedRetrievedAt_def newer_def)
qed

lemma submitted_append: "submitted u (cs @ ds) = submitted u cs @ submitted u ds"
  by (induction cs) (auto split: call.splits)

lemma run_inv: "graph_inv s \<Longrightarrow> run cs s = Returns s' \<Longrightarrow> graph_inv s'"
proof (induction cs arbitrary: s)
  case Nil
  then show ?case by simp
next
  case (Cons c cs)
  then show ?case by (cases "step c s") (auto intro: step_inv)
qed

lemma run_storedRetrievedAt:
  "graph_inv s \<Longrightarrow> run cs s = Returns s' \<Longrightarrow>
   storedRetrievedAt s' u = foldl newer (storedRetrievedAt s u) (submitted u cs)"
proof (induction cs arbitrary: s)
  case Nil
  then show ?case by simp
next
  case (Cons c cs)
  then obtain s1 where s1: "step c s = Returns s1" "run cs s1 = Returns s'"
    by (cases "step c s") auto
  have "storedRetrievedAt s' u = foldl newer (storedRetrievedAt s1 u) (submitted u cs)"
    using Cons.IH[OF step_inv[OF Cons.prems(1) s1(1)] s1(2)] .
  also have "storedRetrievedAt s1 u = foldl newer (storedRetrievedAt s u) (submitted u [c])"
    by (rule step_storedRetrievedAt[OF Cons.prems(1) s1(1)])
  finally show ?case
    using submitted_append[of u "[c]" cs] by (simp del: submitted.simps)
qed

lemma foldl_newer_Some: "foldl newer (Some m) ts = Some (Max (insert m (set ts)))"
proof (induction ts arbitrary: m)
  case Nil
  then show ?case by simp
next
  case (Cons t ts)
  have "Max (insert (max m t) (set ts)) = Max (insert m (insert t (set ts)))"
    by (cases "set ts = {}") (simp_all add: max.assoc max.commute)
  then show ?case using Cons by (simp add: newer_def)
qed

lemma foldl_newer_None:
  "foldl newer None ts = (if ts = [] then None else Some (Max (set ts)))"
  by (cases ts) (simp_all add: newer_def foldl_newer_Some)

lemma Link_upd_eq:
  "URL (l1::Link) = URL l2 \<Longrightarrow> l1\<lparr>Link.ID := i, RetrievedAt := x\<rparr> = l2\<lparr>Link.ID := i, RetrievedAt := x\<rparr>"
  by (cases l1, cases l2) simp

lemma UpsertLink_stored:
  assumes r: "UpsertLink l d s = Returns (e, l', s')"
  shows "\<exists>a. map_of (linkURLIndex s') (URL l) = Some a \<and>
           link_heap s' a = l\<lparr>Link.ID := Link.ID l',
              RetrievedAt := (case storedRetrievedAt s (URL l) of
                                None \<Rightarrow> RetrievedAt l | Some m \<Rightarrow> max m (RetrievedAt l))\<rparr> \<and>
           (\<forall>a'. map_of (linkURLIndex s) (URL l) = Some a' \<longrightarrow>
                  a = a' \<and> Link.ID l' = Link.ID (link_heap s a'))"
    "l' = l\<lparr>Link.ID := Link.ID l'\<rparr>" "e = None"
proof -
  have "(\<exists>a. map_of (linkURLIndex s') (URL l) = Some a \<and>
           link_heap s' a = l\<lparr>Link.ID := Link.ID l',
              RetrievedAt := (case storedRetrievedAt s (URL l) of
                                None \<Rightarrow> RetrievedAt l | Some m \<Rightarrow> max m (RetrievedAt l))\<rparr> \<and>
           (\<forall>a'. map_of (linkURLIndex s) (URL l) = Some a' \<longrightarrow>
                  a = a' \<and> Link.ID l' = Link.ID (link_heap s a'))) \<and>
        l' = l\<lparr>Link.ID := Link.ID l'\<rparr> \<and> e = None"
    using r
  proof (cases rule: UpsertLink_cases)
    case (existing a)
    note d = UpsertLink_existingD[OF existing r]
    show ?thesis
      using existing by (simp add: d storedRetrievedAt_def)
  next
    case (new i)
    note d = UpsertLink_newD[OF new r]
    show ?thesis
      using new by (simp add: d storedRetrievedAt_def update_conv')
  qed
  then show "\<exists>a. map_of (linkURLIndex s') (URL l) = Some a \<and>
           link_heap s' a = l\<lparr>Link.ID := Link.ID l',
              RetrievedAt := (case storedRetrievedAt s (URL l) of
                                None \<Rightarrow> RetrievedAt l | Some m \<Rightarrow> max m (RetrievedAt l))\<rparr> \<and>
           (\<forall>a'. map_of (linkURLIndex s) (URL l) = Some a' \<longrightarrow>
                  a = a' \<and> Link.ID l' = Link.ID (link_heap s a'))"
    "l' = l\<lparr>Link.ID := Link.ID l'\<rparr>" "e = None"
    by blast+
qed

lemma step_link_monotone:
  assumes inv: "graph_inv s" and st: "step c s = Returns s'"
    and ix: "map_of (linkURLIndex s) u = Some a"
  shows "map_of (linkURLIndex s') u = Some a \<and>
         Link.ID (link_heap s' a) = Link.ID (link_heap s a) \<and>
         URL (link_heap s' a) = URL (link_heap s a) \<and>
         RetrievedAt (link_heap s a) \<le> RetrievedAt (link_heap s' a)"
proof -
  note d = index_okD[OF inv ix]
  have u: "URL link = u" if "map_of (linkURLIndex s) (URL link) = Some a" for link
    using index_okD(2)[OF inv that] d(2) by simp
  show ?thesis
    using step_link_heap[OF st d(1)] step_link_frame(2)[OF st ix] d(2) u
    by (cases c) auto
qed

lemma ex_submitted: "submitted ''a'' ex_calls = [100, 50]"
  by (simp add: ex_calls_def)

lemma run_link_monotone:
  "graph_inv s \<Longrightarrow> run cs s = Returns s' \<Longrightarrow> map_of (linkURLIndex s) u = Some a \<Longrightarrow>
   map_of (linkURLIndex s') u = Some a \<and>
   Link.ID (link_heap s' a) = Link.ID (link_heap s a) \<and>
   URL (link_heap s' a) = URL (link_heap s a) \<and>
   RetrievedAt (link_heap s a) \<le> RetrievedAt (link_heap s' a)"
proof (induction cs arbitrary: s)
  case Nil
  then show ?case by simp
next
  case (Cons c cs)
  then obtain s1 where s1: "step c s = Returns s1" "run cs s1 = Returns s'"
    by (cases "step c s") auto
  note m = step_link_monotone[OF Cons.prems(1) s1(1) Cons.prems(3)]
  note ih = Cons.IH[OF step_inv[OF Cons.prems(1) s1(1)] s1(2) conjunct1[OF m]]
  show ?case using m ih by simp
qed

lemma one_link_per_URL:
  assumes inv: "graph_inv s"
    and "map_of (links s) i = Some a" "map_of (links s) j = Some b"
    and "URL (link_heap s a) = URL (link_heap s b)"
  shows "i = j"
proof -
  have "map_of (linkURLIndex s) (URL (link_heap s b)) = Some a"
    using links_okD(3)[OF inv assms(2)] unfolding assms(4) .
  then have "a = b" using links_okD(3)[OF inv assms(3)] by (metis option.inject)
  then show ?thesis
    using links_okD(2)[OF inv assms(2)] links_okD(2)[OF inv assms(3)] by metis
qed

lemma set_Links:
  "set (fst (Links fromID toID t s)) =
     {a. \<exists>i. (i, a) \<in> set (links s) \<and> fromID \<le> i \<and> i < toID \<and>
              RetrievedAt (link_heap s a) < t}"
  by (auto simp: Links_def Let_def uuid_String_less uuid_String_le)

lemma Links_error: "snd (Links fromID toID t s) = None"
  by (simp add: Links_def Let_def)

lemma Links_split:
  assumes "a \<le> b" "b \<le> c"
  shows "set (fst (Links a b t s)) \<union> set (fst (Links b c t s)) = set (fst (Links a c t s))"
  using assms unfolding set_Links by (auto simp: not_less)

lemma Links_empty: "set (fst (Links a a t s)) = {}"
  unfolding set_Links by auto

lemma Links_tiling:
  "sorted bs \<Longrightarrow> bs \<noteq> [] \<Longrightarrow>
   (\<Union>(f, t') \<in> set (zip bs (tl bs)). set (fst (Links f t' t s))) =
     set (fst (Links (hd bs) (last bs) t s))"
proof (induction bs rule: induct_list012)
  case 1
  then show ?case by simp
next
  case (2 x)
  then show ?case by (simp add: Links_empty)
next
  case (3 x y zs)
  have le: "x \<le> y" "y \<le> last (y # zs)" using "3.prems"(1) by auto
  have "(\<Union>(f, t') \<in> set (zip (y # zs) (tl (y # zs))). set (fst (Links f t' t s))) =
     set (fst (Links y (last (y # zs)) t s))"
    using "3.IH"(2) "3.prems"(1) by simp
  then show ?case
    using Links_split[OF le, of t s] by simp
qed

lemma Links_disjoint:
  assumes inv: "graph_inv s" and "b \<le> c"
  shows "set (fst (Links a b t s)) \<inter> set (fst (Links c d t s)) = {}"
proof -
  have False if h: "(i, p) \<in> set (links s)" "i < b" "(j, p) \<in> set (links s)" "c \<le> j" for i j p
  proof -
    have "map_of (links s) i = Some p" "map_of (links s) j = Some p"
      using h distinct_keysD(1)[OF inv] by simp_all
    then have "i = j" using links_okD(2)[OF inv] by metis
    then show False using h assms(2) by simp
  qed
  then show ?thesis unfolding set_Links by blast
qed

lemma distinct_Links:
  assumes inv: "graph_inv s"
  shows "distinct (fst (Links a b t s))"
proof -
  have inj: "inj_on snd (set (links s))"
  proof (rule inj_onI)
    fix x y assume h: "x \<in> set (links s)" "y \<in> set (links s)" "snd x = snd y"
    obtain i p where x: "x = (i, p)" by (cases x)
    obtain j q where y: "y = (j, q)" by (cases y)
    have "map_of (links s) i = Some p" "map_of (links s) j = Some p"
      using h x y distinct_keysD(1)[OF inv] by simp_all
    then have "i = j" using links_okD(2)[OF inv] by metis
    then show "x = y" using h x y by simp
  qed
  have d: "distinct (links s)" using distinct_keysD(1)[OF inv] by (simp add: distinct_map)
  have "fst (Links a b t s) = map snd (filter (\<lambda>(i, p). uuid_String a \<le> uuid_String i \<and>
            uuid_String i < uuid_String b \<and> RetrievedAt (link_heap s p) < t) (links s))"
  proof -
    have "\<And>ls. concat (map (\<lambda>(i, p). if uuid_String a \<le> uuid_String i \<and>
            uuid_String i < uuid_String b \<and> RetrievedAt (link_heap s p) < t then [p] else []) ls)
        = map snd (filter (\<lambda>(i, p). uuid_String a \<le> uuid_String i \<and>
            uuid_String i < uuid_String b \<and> RetrievedAt (link_heap s p) < t) ls)"
      by (induct_tac ls) (auto split: if_splits)
    then show ?thesis by (simp add: Links_def Let_def)
  qed
  moreover have "inj_on snd (set (filter (\<lambda>(i, p). uuid_String a \<le> uuid_String i \<and>
            uuid_String i < uuid_String b \<and> RetrievedAt (link_heap s p) < t) (links s)))"
    by (rule inj_on_subset[OF inj]) auto
  ultimately show ?thesis
    using d by (simp add: distinct_map)
qed

lemma step_index:
  assumes st: "step c s = Returns s'"
  shows "map_of (linkURLIndex s') u = Some p \<Longrightarrow>
         map_of (linkURLIndex s) u = Some p \<or> p = link_next s"
proof (cases c)
  case (CallUpsertLink link draws)
  then obtain err link' where r: "UpsertLink link draws s = Returns (err, link', s')"
    using st by (auto split: outcome.splits)
  assume "map_of (linkURLIndex s') u = Some p"
  then show ?thesis using UpsertLink_index(1)[OF r, of u] by (auto split: if_splits)
next
  case (CallFindLink linkID)
  assume "map_of (linkURLIndex s') u = Some p"
  then show ?thesis using st CallFindLink by (auto simp: FindLink_frame)
next
  case (CallUpsertEdge edge draws now)
  then obtain err edge' where r: "UpsertEdge edge draws now s = Returns (err, edge', s')"
    using st by (auto split: outcome.splits)
  assume "map_of (linkURLIndex s') u = Some p"
  then show ?thesis using UpsertEdge_frame[OF r] by simp
next
  case (CallRemoveStaleEdges src t)
  then obtain err where r: "RemoveStaleEdges src t s = Returns (err, s')"
    using st by (auto split: outcome.splits)
  assume "map_of (linkURLIndex s') u = Some p"
  then show ?thesis using RemoveStaleEdges_frame[OF r] by simp
next
  case (CallLinks x y z)
  assume "map_of (linkURLIndex s') u = Some p"
  then show ?thesis using st CallLinks by simp
next
  case (CallEdges x y z)
  assume "map_of (linkURLIndex s') u = Some p"
  then show ?thesis using st CallEdges by (auto split: outcome.splits)
qed

lemma step_private_copy:
  assumes st: "step c s = Returns s'" and p: "p < link_next s"
    and un: "\<And>u. map_of (linkURLIndex s) u \<noteq> Some p"
  shows "link_heap s' p = link_heap s p" "p < link_next s'"
    "\<And>u. map_of (linkURLIndex s') u \<noteq> Some p"
proof -
  show "link_heap s' p = link_heap s p"
    using step_link_heap[OF st p] un by (cases c) auto
  show "p < link_next s'" using step_link_frame(1)[OF st] p by simp
  show "map_of (linkURLIndex s') u \<noteq> Some p" for u
    using step_index[OF st, of u p] un p by auto
qed

lemma run_private_copy:
  "run cs s = Returns s' \<Longrightarrow> p < link_next s \<Longrightarrow>
   (\<And>u. map_of (linkURLIndex s) u \<noteq> Some p) \<Longrightarrow> link_heap s' p = link_heap s p"
proof (induction cs arbitrary: s)
  case Nil
  then show ?case by simp
next
  case (Cons c cs)
  then obtain s1 where s1: "step c s = Returns s1" "run cs s1 = Returns s'"
    by (cases "step c s") auto
  note k = step_private_copy[OF s1(1) Cons.prems(2,3)]
  show ?case using Cons.IH[OF s1(2) k(2,3)] k(1) by simp
qed

lemma FindLink_copy:
  assumes inv: "graph_inv s" and f: "FindLink linkID s = (Inr p, s0)"
  shows "\<exists>a. map_of (links s) linkID = Some a \<and> link_heap s0 p = link_heap s a"
    "p < link_next s0" "\<And>u. map_of (linkURLIndex s0) u \<noteq> Some p"
    "\<And>i. map_of (links s0) i \<noteq> Some p"
proof -
  obtain a where a: "map_of (links s) linkID = Some a"
    using f by (cases "map_of (links s) linkID") (auto simp: FindLink_def)
  have s0: "p = link_next s" "s0 = s\<lparr>link_heap := (link_heap s)(link_next s := link_heap s a),
      link_next := Suc (link_next s)\<rparr>"
    using f a by (auto simp: FindLink_def Let_def)
  show "\<exists>a. map_of (links s) linkID = Some a \<and> link_heap s0 p = link_heap s a"
    using a s0 by simp
  show "p < link_next s0" using s0 by simp
  show "map_of (linkURLIndex s0) u \<noteq> Some p" for u
    using index_okD(1)[OF inv, of u p] s0 by auto
  show "map_of (links s0) i \<noteq> Some p" for i
    using links_okD(1)[OF inv, of i p] s0 by auto
qed

lemma findEdge_first_match:
  assumes "\<And>j. j \<in> set l \<Longrightarrow> map_of (edges s) j \<noteq> None"
    and "j \<in> set l" "map_of (edges s) j = Some a"
    and "Src (edge_heap s a) = Src edge" "Dst (edge_heap s a) = Dst edge"
  shows "\<exists>b. findEdge s edge l = Returns (Some b)"
  using assms
proof (induction l)
  case Nil
  then show ?case by simp
next
  case (Cons k l)
  obtain b where b: "map_of (edges s) k = Some b" using Cons.prems(1)[of k] by auto
  show ?case
  proof (cases "Src (edge_heap s b) = Src edge \<and> Dst (edge_heap s b) = Dst edge")
    case True
    then show ?thesis using b by simp
  next
    case False
    then have "j \<noteq> k" using b Cons.prems(3,4,5) by auto
    then have "j \<in> set l" using Cons.prems(2) by simp
    then show ?thesis
      using Cons.IH[OF _ _ Cons.prems(3,4,5)] Cons.prems(1) b False by simp
  qed
qed

lemma findEdge_iff:
  assumes inv: "graph_inv s"
  shows "(findEdge s edge (edgeList_of s (Src edge)) = Returns (Some p)) =
     ((\<exists>j. map_of (edges s) j = Some p) \<and>
      Src (edge_heap s p) = Src edge \<and> Dst (edge_heap s p) = Dst edge)"
proof
  assume "findEdge s edge (edgeList_of s (Src edge)) = Returns (Some p)"
  then show "(\<exists>j. map_of (edges s) j = Some p) \<and>
      Src (edge_heap s p) = Src edge \<and> Dst (edge_heap s p) = Dst edge"
    using findEdge_Some by blast
next
  assume h: "(\<exists>j. map_of (edges s) j = Some p) \<and>
      Src (edge_heap s p) = Src edge \<and> Dst (edge_heap s p) = Dst edge"
  then obtain j where j: "map_of (edges s) j = Some p" by blast
  have jl: "j \<in> set (edgeList_of s (Src edge))" using edges_okD(5)[OF inv j] h by simp
  have keys: "\<And>k. k \<in> set (edgeList_of s (Src edge)) \<Longrightarrow> map_of (edges s) k \<noteq> None"
    using adjacency_okD(2)[OF inv] by fastforce
  obtain b where b: "findEdge s edge (edgeList_of s (Src edge)) = Returns (Some b)"
    using findEdge_first_match[OF keys jl j] h by blast
  obtain k where k: "map_of (edges s) k = Some b" "Src (edge_heap s b) = Src edge"
    "Dst (edge_heap s b) = Dst edge"
    using findEdge_Some[OF b] by blast
  have "k = j" using pairs_okD[OF inv k(1) j] k h by simp
  then have "b = p" using k j by simp
  then show "findEdge s edge (edgeList_of s (Src edge)) = Returns (Some p)" using b by simp
qed


lemma step_edge_heap:
  assumes st: "step c s = Returns s'"
  shows "edge_next s \<le> edge_next s'"
    "p < edge_next s \<Longrightarrow> edge_heap s' p =
     (case c of
        CallUpsertEdge edge draws now \<Rightarrow>
          if map_of (links s) (Src edge) \<noteq> None \<and> map_of (links s) (Dst edge) \<noteq> None \<and>
             findEdge s edge (edgeList_of s (Src edge)) = Returns (Some p)
          then (edge_heap s p)\<lparr>UpdatedAt := now\<rparr> else edge_heap s p
      | _ \<Rightarrow> edge_heap s p)"
proof -
  have "edge_next s \<le> edge_next s' \<and> (p < edge_next s \<longrightarrow> edge_heap s' p =
     (case c of
        CallUpsertEdge edge draws now \<Rightarrow>
          if map_of (links s) (Src edge) \<noteq> None \<and> map_of (links s) (Dst edge) \<noteq> None \<and>
             findEdge s edge (edgeList_of s (Src edge)) = Returns (Some p)
          then (edge_heap s p)\<lparr>UpdatedAt := now\<rparr> else edge_heap s p
      | _ \<Rightarrow> edge_heap s p))"
  proof (cases c)
    case (CallUpsertLink link draws)
    then obtain err link' where r: "UpsertLink link draws s = Returns (err, link', s')"
      using st by (auto split: outcome.splits)
    show ?thesis using UpsertLink_index(3,4)[OF r] CallUpsertLink by simp
  next
    case (CallFindLink linkID)
    then show ?thesis using st by (auto simp: FindLink_frame)
  next
    case (CallUpsertEdge edge draws now)
    then obtain err edge' where r: "UpsertEdge edge draws now s = Returns (err, edge', s')"
      using st by (auto split: outcome.splits)
    show ?thesis
      using UpsertEdge_edge_heap[OF r, of p] UpsertEdge_frame(5)[OF r] CallUpsertEdge by simp
  next
    case (CallRemoveStaleEdges src t)
    then obtain err where r: "RemoveStaleEdges src t s = Returns (err, s')"
      using st by (auto split: outcome.splits)
    show ?thesis using RemoveStaleEdges_frame[OF r] CallRemoveStaleEdges by simp
  next
    case (CallLinks x y z)
    then show ?thesis using st by simp
  next
    case (CallEdges x y z)
    then show ?thesis using st by (auto split: outcome.splits)
  qed
  then show "edge_next s \<le> edge_next s'"
    "p < edge_next s \<Longrightarrow> edge_heap s' p =
     (case c of
        CallUpsertEdge edge draws now \<Rightarrow>
          if map_of (links s) (Src edge) \<noteq> None \<and> map_of (links s) (Dst edge) \<noteq> None \<and>
             findEdge s edge (edgeList_of s (Src edge)) = Returns (Some p)
          then (edge_heap s p)\<lparr>UpdatedAt := now\<rparr> else edge_heap s p
      | _ \<Rightarrow> edge_heap s p)"
    by blast+
qed

lemma run_edge_next: "run cs s = Returns s' \<Longrightarrow> edge_next s \<le> edge_next s'"
proof (induction cs arbitrary: s)
  case Nil
  then show ?case by simp
next
  case (Cons c cs)
  then obtain s1 where s1: "step c s = Returns s1" "run cs s1 = Returns s'"
    by (cases "step c s") auto
  show ?case using step_edge_heap(1)[OF s1(1)] Cons.IH[OF s1(2)] by simp
qed

lemma Link_overwrite:
  "URL (l::Link) = URL old \<Longrightarrow>
   l\<lparr>Link.ID := Link.ID old, RetrievedAt := m\<rparr> = old\<lparr>RetrievedAt := m\<rparr>"
  by (cases l, cases old) simp

lemma listed_link_after:
  assumes inv: "graph_inv s" and p: "map_of (links s) i = Some p"
    and r: "run cs s = Returns s1" and st: "step c s1 = Returns s2"
  shows "link_heap s2 p =
     (case c of
        CallUpsertLink link draws \<Rightarrow>
          if URL link = URL (link_heap s1 p)
          then (link_heap s1 p)\<lparr>RetrievedAt :=
                  max (RetrievedAt (link_heap s1 p)) (RetrievedAt link)\<rparr>
          else link_heap s1 p
      | _ \<Rightarrow> link_heap s1 p)"
proof -
  note inv1 = run_inv[OF inv r]
  have ix: "map_of (linkURLIndex s) (URL (link_heap s p)) = Some p"
    by (rule links_okD(3)[OF inv p])
  note m = run_link_monotone[OF inv r ix]
  have ix1: "map_of (linkURLIndex s1) (URL (link_heap s1 p)) = Some p" using m by simp
  have lt: "p < link_next s1" by (rule index_okD(1)[OF inv1 ix1])
  have iff: "(map_of (linkURLIndex s1) (URL link) = Some p) = (URL link = URL (link_heap s1 p))"
    for link
    using index_okD(2)[OF inv1, of "URL link" p] ix1 by auto
  show ?thesis
    using step_link_heap[OF st lt]
    by (cases c) (simp_all add: iff Link_overwrite)
qed

lemma listed_edge_after:
  assumes inv: "graph_inv s" and p: "map_of (edges s) j = Some p"
    and r: "run cs s = Returns s1" and st: "step c s1 = Returns s2"
  shows "edge_heap s2 p =
     (case c of
        CallUpsertEdge edge draws now \<Rightarrow>
          if (\<exists>k. map_of (edges s1) k = Some p) \<and>
             Src edge = Src (edge_heap s1 p) \<and> Dst edge = Dst (edge_heap s1 p)
          then (edge_heap s1 p)\<lparr>UpdatedAt := now\<rparr> else edge_heap s1 p
      | _ \<Rightarrow> edge_heap s1 p)"
proof -
  note inv1 = run_inv[OF inv r]
  have lt: "p < edge_next s1"
    using edges_okD(1)[OF inv p] run_edge_next[OF r] by simp
  have iff: "(map_of (links s1) (Src edge) \<noteq> None \<and> map_of (links s1) (Dst edge) \<noteq> None \<and>
             findEdge s1 edge (edgeList_of s1 (Src edge)) = Returns (Some p)) =
        ((\<exists>k. map_of (edges s1) k = Some p) \<and>
             Src edge = Src (edge_heap s1 p) \<and> Dst edge = Dst (edge_heap s1 p))" for edge
  proof
    assume "map_of (links s1) (Src edge) \<noteq> None \<and> map_of (links s1) (Dst edge) \<noteq> None \<and>
             findEdge s1 edge (edgeList_of s1 (Src edge)) = Returns (Some p)"
    then show "(\<exists>k. map_of (edges s1) k = Some p) \<and>
             Src edge = Src (edge_heap s1 p) \<and> Dst edge = Dst (edge_heap s1 p)"
      using findEdge_iff[OF inv1, of edge p] by auto
  next
    assume h: "(\<exists>k. map_of (edges s1) k = Some p) \<and>
             Src edge = Src (edge_heap s1 p) \<and> Dst edge = Dst (edge_heap s1 p)"
    then obtain k where k: "map_of (edges s1) k = Some p" by blast
    have "findEdge s1 edge (edgeList_of s1 (Src edge)) = Returns (Some p)"
      using findEdge_iff[OF inv1, of edge p] h by auto
    then show "map_of (links s1) (Src edge) \<noteq> None \<and> map_of (links s1) (Dst edge) \<noteq> None \<and>
             findEdge s1 edge (edgeList_of s1 (Src edge)) = Returns (Some p)"
      using edges_okD(3,4)[OF inv1 k] h by simp
  qed
  show ?thesis
  proof (cases c)
    case (CallUpsertEdge edge draws now)
    show ?thesis
      using step_edge_heap(2)[OF st lt]
      unfolding CallUpsertEdge call.case iff[of edge] by assumption
  qed (use step_edge_heap(2)[OF st lt] in simp_all)
qed

lemma UpsertLink_returns:
  assumes "map_of (linkURLIndex s) (URL link) \<noteq> None \<or> (\<exists>d \<in> set draws. map_of (links s) d = None)"
  shows "\<exists>link' s'. UpsertLink link draws s = Returns (None, link', s')"
proof (cases "map_of (linkURLIndex s) (URL link)")
  case None
  then obtain i where "newID (links s) draws = Some i"
    using assms newID_fresh_draw[of draws "links s"] by auto
  then show ?thesis using UpsertLink_new[OF None] by blast
next
  case (Some a)
  then show ?thesis using UpsertLink_existing by blast
qed

lemma UpsertLink_Spins:
  assumes "map_of (linkURLIndex s) (URL link) = None" "\<forall>d \<in> set draws. map_of (links s) d \<noteq> None"
  shows "UpsertLink link draws s = Spins"
proof -
  have "newID (links s) draws = None"
    using assms(2) newID_Some[of "links s" draws] by (cases "newID (links s) draws") auto
  then show ?thesis using assms(1) by (simp add: UpsertLink_def)
qed

lemma UpsertEdge_returns:
  assumes inv: "graph_inv s" and d: "\<exists>d \<in> set draws. map_of (edges s) d = None"
  shows "\<exists>err edge' s'. UpsertEdge edge draws now s = Returns (err, edge', s')"
proof (cases "map_of (links s) (Src edge) = None \<or> map_of (links s) (Dst edge) = None")
  case True
  then show ?thesis using UpsertEdge_unknown by blast
next
  case False
  then have ends: "map_of (links s) (Src edge) \<noteq> None" "map_of (links s) (Dst edge) \<noteq> None"
    by simp_all
  obtain r where r: "findEdge s edge (edgeList_of s (Src edge)) = Returns r"
    using findEdge_total[OF inv] by blast
  show ?thesis
  proof (cases r)
    case None
    obtain i where "newID (edges s) draws = Some i"
      using d newID_fresh_draw[of draws "edges s"] by auto
    then show ?thesis using UpsertEdge_new[OF ends r[unfolded None]] by blast
  next
    case (Some a)
    then show ?thesis using UpsertEdge_existing[OF ends r[unfolded Some]] by blast
  qed
qed

lemma step_returns:
  assumes inv: "graph_inv s"
    and lk: "\<And>x. x \<notin> used \<Longrightarrow> map_of (links s) x = None"
    and ek: "\<And>x. x \<notin> used \<Longrightarrow> map_of (edges s) x = None"
    and ok: "fresh_supply used [c]"
  shows "\<exists>s'. step c s = Returns s' \<and>
           (\<forall>x. x \<notin> used \<union> (case c of CallUpsertLink l d \<Rightarrow> set d
                                 | CallUpsertEdge e d now \<Rightarrow> set d | _ \<Rightarrow> {}) \<longrightarrow>
                map_of (links s') x = None \<and> map_of (edges s') x = None)"
proof (cases c)
  case (CallUpsertLink link draws)
  obtain d where d: "d \<in> set draws" "d \<notin> used" using ok CallUpsertLink by auto
  have "\<exists>d \<in> set draws. map_of (links s) d = None" using d lk by blast
  then obtain link' s' where r: "UpsertLink link draws s = Returns (None, link', s')"
    using UpsertLink_returns by blast
  have e: "edges s' = edges s" by (rule UpsertLink_index(5)[OF r])
  have l: "map_of (links s') x = None" if "x \<notin> used \<union> set draws" for x
    using r
  proof (cases rule: UpsertLink_cases)
    case (existing a)
    have "links s' = links s" using UpsertLink_existingD(3)[OF existing r] by simp
    then show ?thesis using lk that by simp
  next
    case (new i)
    have "links s' = AList.update i (link_next s) (links s)"
      using UpsertLink_newD(3)[OF new r] by simp
    moreover have "i \<in> set draws" using newID_Some[OF new(2)] by simp
    ultimately show ?thesis using lk[of x] that by (auto simp: update_conv')
  qed
  show ?thesis using r l e ek CallUpsertLink by auto
next
  case (CallFindLink linkID)
  then show ?thesis using lk ek by (simp add: FindLink_frame)
next
  case (CallUpsertEdge edge draws now)
  obtain d where d: "d \<in> set draws" "d \<notin> used" using ok CallUpsertEdge by auto
  have "\<exists>d \<in> set draws. map_of (edges s) d = None" using d ek by blast
  then obtain err edge' s' where r: "UpsertEdge edge draws now s = Returns (err, edge', s')"
    using UpsertEdge_returns[OF inv] by blast
  have l: "links s' = links s" by (rule UpsertEdge_frame(2)[OF r])
  have e: "map_of (edges s') x = None" if "x \<notin> used \<union> set draws" for x
    using r
  proof (cases rule: UpsertEdge_cases)
    case unknown
    have "s' = s" using r UpsertEdge_unknown[OF unknown, of draws now] by simp
    then show ?thesis using ek that by simp
  next
    case (existing a)
    have "edges s' = edges s" using UpsertEdge_existingD(3)[OF existing r] by simp
    then show ?thesis using ek that by simp
  next
    case (new i)
    have "edges s' = AList.update i (edge_next s) (edges s)"
      using UpsertEdge_newD(3)[OF new r] by simp
    moreover have "i \<in> set draws" using newID_Some[OF new(4)] by simp
    ultimately show ?thesis using ek[of x] that by (auto simp: update_conv')
  qed
  show ?thesis using r l e lk CallUpsertEdge by auto
next
  case (CallRemoveStaleEdges src t)
  obtain s' where r: "RemoveStaleEdges src t s = Returns (None, s')"
    using RemoveStaleEdges_result[OF inv] by blast
  note k = RemoveStaleEdges_effect[OF inv r]
  have "map_of (edges s') x = None" if "x \<notin> used" for x
    using k(2)[of x] ek[OF that] by simp
  then show ?thesis using r k(6) lk CallRemoveStaleEdges by auto
next
  case (CallLinks f t' b)
  then show ?thesis using lk ek by simp
next
  case (CallEdges f t' b)
  obtain list where "Edges f t' b s = Returns (list, None)"
    using Edges_result[OF inv] by blast
  then show ?thesis using lk ek CallEdges by simp
qed

lemma fresh_supply_Cons:
  "fresh_supply used (c # cs) \<Longrightarrow>
   fresh_supply used [c] \<and>
   fresh_supply (used \<union> (case c of CallUpsertLink l d \<Rightarrow> set d
                                 | CallUpsertEdge e d now \<Rightarrow> set d | _ \<Rightarrow> {})) cs"
  by (cases c) auto

lemma run_returns:
  "graph_inv s \<Longrightarrow> (\<And>x. x \<notin> used \<Longrightarrow> map_of (links s) x = None) \<Longrightarrow>
   (\<And>x. x \<notin> used \<Longrightarrow> map_of (edges s) x = None) \<Longrightarrow> fresh_supply used cs \<Longrightarrow>
   \<exists>s'. run cs s = Returns s'"
proof (induction cs arbitrary: s used)
  case Nil
  then show ?case by simp
next
  case (Cons c cs)
  note f = fresh_supply_Cons[OF Cons.prems(4)]
  obtain s1 where s1: "step c s = Returns s1"
    and k: "\<And>x. x \<notin> used \<union> (case c of CallUpsertLink l d \<Rightarrow> set d
                                 | CallUpsertEdge e d now \<Rightarrow> set d | _ \<Rightarrow> {}) \<Longrightarrow>
                map_of (links s1) x = None \<and> map_of (edges s1) x = None"
    using step_returns[OF Cons.prems(1) Cons.prems(2) Cons.prems(3) f[THEN conjunct1]] by blast
  have "\<exists>s'. run cs s1 = Returns s'"
    by (rule Cons.IH[OF step_inv[OF Cons.prems(1) s1] _ _ f[THEN conjunct2]]) (use k in blast)+
  then show ?case using s1 by simp
qed

lemma run_returns_new: "fresh_supply {} cs \<Longrightarrow> \<exists>s. run cs NewInMemoryGraph = Returns s"
  by (rule run_returns[OF NewInMemoryGraph_inv]) (simp_all add: NewInMemoryGraph_def)

lemma stored_after_upsert:
  assumes st: "storedRetrievedAt s u =
      (if submitted u cs = [] then None else Some (Max (set (submitted u cs))))"
  shows "(case storedRetrievedAt s u of None \<Rightarrow> t | Some m \<Rightarrow> max m t) =
         Max (insert t (set (submitted u cs)))"
proof (cases "submitted u cs = []")
  case True
  then show ?thesis using st by simp
next
  case False
  then have "Max (insert t (set (submitted u cs))) = max t (Max (set (submitted u cs)))"
    by (intro Max_insert) simp_all
  then show ?thesis using st False by (simp add: max.commute)
qed

section \<open>The claims\<close>

text \<open>
  C3. In any state, \<open>UpsertEdge\<close> with a \<open>Src\<close> or \<open>Dst\<close> that is not the identifier of a
  stored link returns an error wrapping \<open>ErrUnknownEdgeLinks\<close> and leaves the whole state,
  and the caller's edge, as they were. In a reachable state where both endpoints are stored
  the call never panics, never returns an error, and returns as soon as one of the
  identifiers drawn for it is not yet an edge identifier.
\<close>

theorem UpsertEdge_endpoint_validation:
  "(map_of (links s) (Src edge) = None \<or> map_of (links s) (Dst edge) = None \<longrightarrow>
      UpsertEdge edge draws now s =
        Returns (Some (Errorf ''upsert edge: %w'' ErrUnknownEdgeLinks), edge, s) \<and>
      errors_Is (Errorf ''upsert edge: %w'' ErrUnknownEdgeLinks) ErrUnknownEdgeLinks) \<and>
   (reachable s \<and> map_of (links s) (Src edge) \<noteq> None \<and> map_of (links s) (Dst edge) \<noteq> None \<longrightarrow>
      UpsertEdge edge draws now s \<noteq> Panics \<and>
      (\<forall>err edge' s'. UpsertEdge edge draws now s = Returns (err, edge', s') \<longrightarrow> err = None) \<and>
      ((\<exists>d \<in> set draws. map_of (edges s) d = None) \<longrightarrow>
         (\<exists>edge' s'. UpsertEdge edge draws now s = Returns (None, edge', s'))))"
proof (intro conjI impI)
  assume "map_of (links s) (Src edge) = None \<or> map_of (links s) (Dst edge) = None"
  then show "UpsertEdge edge draws now s =
        Returns (Some (Errorf ''upsert edge: %w'' ErrUnknownEdgeLinks), edge, s)"
    by (simp add: UpsertEdge_unknown)
next
  show "errors_Is (Errorf ''upsert edge: %w'' ErrUnknownEdgeLinks) ErrUnknownEdgeLinks"
    by simp
next
  assume h: "reachable s \<and> map_of (links s) (Src edge) \<noteq> None \<and>
             map_of (links s) (Dst edge) \<noteq> None"
  then have inv: "graph_inv s" by (simp add: reachable_inv)
  obtain r where r: "findEdge s edge (edgeList_of s (Src edge)) = Returns r"
    using findEdge_total[OF inv] by blast
  show "UpsertEdge edge draws now s \<noteq> Panics"
    using h r by (simp add: UpsertEdge_def Let_def split: option.splits)
  show "\<forall>err edge' s'. UpsertEdge edge draws now s = Returns (err, edge', s') \<longrightarrow> err = None"
    using h r by (auto simp: UpsertEdge_def Let_def split: option.splits)
  show "\<exists>edge' s'. UpsertEdge edge draws now s = Returns (None, edge', s')"
    if "\<exists>d \<in> set draws. map_of (edges s) d = None"
    using h r newID_fresh_draw[OF that] by (auto simp: UpsertEdge_def Let_def split: option.splits)
qed

theorem UpsertEdge_endpoint_validation_witness:
  "UpsertEdge \<lparr>Edge.ID = 0, Src = 7, Dst = 8, UpdatedAt = 0\<rparr> [4] 2000 ex_graph =
      Returns (Some (Errorf ''upsert edge: %w'' ErrUnknownEdgeLinks),
               \<lparr>Edge.ID = 0, Src = 7, Dst = 8, UpdatedAt = 0\<rparr>, ex_graph) \<and>
   errors_Is (Errorf ''upsert edge: %w'' ErrUnknownEdgeLinks) ErrUnknownEdgeLinks \<and>
   reachable ex_graph \<and>
   map_of (links ex_graph) 9 \<noteq> None \<and> map_of (links ex_graph) 7 \<noteq> None \<and>
   map_of (edges ex_graph) 4 = None \<and>
   (\<exists>edge' s'. UpsertEdge \<lparr>Edge.ID = 0, Src = 9, Dst = 9, UpdatedAt = 0\<rparr> [5, 4] 2000 ex_graph =
      Returns (None, edge', s'))"
  using UpsertEdge_endpoint_validation
      [of ex_graph "\<lparr>Edge.ID = 0, Src = 7, Dst = 8, UpdatedAt = 0\<rparr>" "[4]" 2000]
    UpsertEdge_endpoint_validation
      [of ex_graph "\<lparr>Edge.ID = 0, Src = 9, Dst = 9, UpdatedAt = 0\<rparr>" "[5, 4]" 2000]
    ex_reachable
  by (simp add: ex_fields)

text \<open>
  C9. In a reachable state \<open>Edges\<close> returns without error, and the edges it hands to the
  iterator are exactly the stored edges whose \<open>Src\<close> lies in \<open>[fromID, toID)\<close>, in the
  numeric order of identifiers, and whose \<open>UpdatedAt\<close> is strictly before the threshold.
\<close>

theorem Edges_exact:
  assumes "reachable s"
  shows "\<exists>list. Edges fromID toID updatedBefore s = Returns (list, None) \<and>
     set list = {a \<in> snd ` set (edges s).
                  fromID \<le> Src (edge_heap s a) \<and> Src (edge_heap s a) < toID \<and>
                  UpdatedAt (edge_heap s a) < updatedBefore}"
  using Edges_result[OF reachable_inv[OF assms]] .

theorem Edges_exact_witness:
  "reachable ex_graph \<and>
   (\<exists>list. Edges 0 8 1002 ex_graph = Returns (list, None) \<and>
      set list = {a \<in> snd ` set (edges ex_graph).
                  0 \<le> Src (edge_heap ex_graph a) \<and> Src (edge_heap ex_graph a) < 8 \<and>
                  UpdatedAt (edge_heap ex_graph a) < 1002}) \<and>
   Edges 0 8 1002 ex_graph = Returns ([0], None) \<and>
   Edges 8 10 1002 ex_graph = Returns ([], None) \<and>
   Edges 0 10 1003 ex_graph = Returns ([0, 1], None)"
proof -
  have e: "Edges 0 8 1002 ex_graph = Returns ([0], None)"
    "Edges 8 10 1002 ex_graph = Returns ([], None)"
    "Edges 0 10 1003 ex_graph = Returns ([0, 1], None)"
    by (simp_all add: Edges_def ex_fields edgeList_of_def uuid_String_less uuid_String_le)
  show ?thesis
    using Edges_exact[OF ex_reachable, of 0 8 1002] ex_reachable e by simp
qed

text \<open>
  C10. In every reachable state the indices agree: an edge identifier in an adjacency list
  is a key of \<open>edges\<close>, and the edge stored under it has the list's link as its \<open>Src\<close>; no
  list repeats an identifier; a stored edge's identifier is in the list of its \<open>Src\<close> and in
  no other list; the \<open>Src\<close> and \<open>Dst\<close> of a stored edge are keys of \<open>links\<close>;
  \<open>linkURLIndex\<close> holds, under the URL of every stored link, the very pointer that \<open>links\<close>
  holds under its identifier. Hence \<open>UpsertEdge\<close>, \<open>Edges\<close> and \<open>RemoveStaleEdges\<close> never
  dereference a missing entry.
\<close>

theorem reachable_indices_consistent:
  assumes "reachable s"
  shows "(\<forall>src l eid. map_of (linkEdgeMap s) src = Some l \<and> eid \<in> set l \<longrightarrow>
            (\<exists>a. map_of (edges s) eid = Some a \<and> Src (edge_heap s a) = src)) \<and>
         (\<forall>src l. map_of (linkEdgeMap s) src = Some l \<longrightarrow> distinct l) \<and>
         distinct (map fst (linkEdgeMap s)) \<and>
         (\<forall>eid a. map_of (edges s) eid = Some a \<longrightarrow>
            (\<exists>l. map_of (linkEdgeMap s) (Src (edge_heap s a)) = Some l \<and> eid \<in> set l) \<and>
            (\<forall>src l. map_of (linkEdgeMap s) src = Some l \<and> eid \<in> set l \<longrightarrow>
               src = Src (edge_heap s a)) \<and>
            map_of (links s) (Src (edge_heap s a)) \<noteq> None \<and>
            map_of (links s) (Dst (edge_heap s a)) \<noteq> None) \<and>
         (\<forall>linkID a. map_of (links s) linkID = Some a \<longrightarrow>
            map_of (linkURLIndex s) (URL (link_heap s a)) = Some a) \<and>
         (\<forall>edge draws now. UpsertEdge edge draws now s \<noteq> Panics) \<and>
         (\<forall>fromID toID updatedBefore. Edges fromID toID updatedBefore s \<noteq> Panics) \<and>
         (\<forall>fromID updatedBefore. RemoveStaleEdges fromID updatedBefore s \<noteq> Panics)"
proof -
  note inv = reachable_inv[OF assms]
  have el: "edgeList_of s src = l" if "map_of (linkEdgeMap s) src = Some l" for src l
    using that by (simp add: edgeList_of_def)
  have a1: "\<exists>a. map_of (edges s) eid = Some a \<and> Src (edge_heap s a) = src"
    if "map_of (linkEdgeMap s) src = Some l \<and> eid \<in> set l" for src l eid
    using adjacency_okD(2)[OF inv, of eid src] el that by auto
  have a2: "distinct l" if "map_of (linkEdgeMap s) src = Some l" for src l
    using adjacency_okD(1)[OF inv, of src] el[OF that] by simp
  have a3: "(\<exists>l. map_of (linkEdgeMap s) (Src (edge_heap s a)) = Some l \<and> eid \<in> set l) \<and>
            (\<forall>src l. map_of (linkEdgeMap s) src = Some l \<and> eid \<in> set l \<longrightarrow>
               src = Src (edge_heap s a)) \<and>
            map_of (links s) (Src (edge_heap s a)) \<noteq> None \<and>
            map_of (links s) (Dst (edge_heap s a)) \<noteq> None"
    if ea: "map_of (edges s) eid = Some a" for eid a
  proof (intro conjI allI impI)
    note d = edges_okD[OF inv ea]
    show "\<exists>l. map_of (linkEdgeMap s) (Src (edge_heap s a)) = Some l \<and> eid \<in> set l"
      using d(5) by (cases "map_of (linkEdgeMap s) (Src (edge_heap s a))")
        (simp_all add: edgeList_of_def)
    show "map_of (links s) (Src (edge_heap s a)) \<noteq> None"
      "map_of (links s) (Dst (edge_heap s a)) \<noteq> None"
      using d by simp_all
  next
    fix src l assume "map_of (linkEdgeMap s) src = Some l \<and> eid \<in> set l"
    then show "src = Src (edge_heap s a)" using a1[of src l eid] ea by auto
  qed
  have a4: "map_of (linkURLIndex s) (URL (link_heap s a)) = Some a"
    if "map_of (links s) linkID = Some a" for linkID a
    using links_okD(3)[OF inv that] .
  have a5: "RemoveStaleEdges fromID updatedBefore s \<noteq> Panics" for fromID updatedBefore
    by (simp add: RemoveStaleEdges_result[OF inv])
  show ?thesis
    using a1 a2 a3 a4 a5 distinct_keysD(4)[OF inv] UpsertEdge_not_Panics[OF inv]
      Edges_not_Panics[OF inv]
    by blast
qed

theorem reachable_indices_consistent_witness:
  "reachable ex_graph \<and>
   map_of (linkEdgeMap ex_graph) 7 = Some [5] \<and>
   (\<exists>a. map_of (edges ex_graph) 5 = Some a \<and> Src (edge_heap ex_graph a) = 7) \<and>
   distinct [5 :: uuid] \<and>
   map_of (edges ex_graph) 6 = Some 1 \<and>
   (\<exists>l. map_of (linkEdgeMap ex_graph) (Src (edge_heap ex_graph 1)) = Some l \<and> 6 \<in> set l) \<and>
   map_of (links ex_graph) (Src (edge_heap ex_graph 1)) \<noteq> None \<and>
   map_of (links ex_graph) (Dst (edge_heap ex_graph 1)) \<noteq> None \<and>
   map_of (links ex_graph) 7 = Some 0 \<and>
   map_of (linkURLIndex ex_graph) (URL (link_heap ex_graph 0)) = Some 0 \<and>
   UpsertEdge \<lparr>Edge.ID = 0, Src = 7, Dst = 9, UpdatedAt = 0\<rparr> [] 2000 ex_graph \<noteq> Panics \<and>
   Edges 0 10 2000 ex_graph \<noteq> Panics \<and>
   RemoveStaleEdges 7 2000 ex_graph \<noteq> Panics"
  using reachable_indices_consistent[OF ex_reachable] ex_reachable
  by (simp add: ex_fields)

text \<open>
  C6. In a reachable state \<open>RemoveStaleEdges src t\<close> returns no error. Afterwards an edge
  identifier is stored exactly when it was stored before and its edge does not both start
  at \<open>src\<close> and carry an \<open>UpdatedAt\<close> strictly before \<open>t\<close>, and it is stored at the same
  address; no edge record, link record, link index or other source's edge list is touched;
  the edge list of \<open>src\<close> keeps its non-stale identifiers in order; running the call again
  changes nothing; and a source with no edges loses none.
\<close>

theorem RemoveStaleEdges_exact:
  assumes "reachable s"
  shows "\<exists>s'. RemoveStaleEdges src t s = Returns (None, s') \<and>
      (\<forall>eid. map_of (edges s') eid =
         (case map_of (edges s) eid of
            None \<Rightarrow> None
          | Some a \<Rightarrow> if Src (edge_heap s a) = src \<and> UpdatedAt (edge_heap s a) < t
                      then None else Some a)) \<and>
      (\<forall>k. k \<noteq> src \<longrightarrow> edgeList_of s' k = edgeList_of s k) \<and>
      edgeList_of s' src =
        filter (\<lambda>j. \<not> staleEdge (edge_heap s) t (edges s) j) (edgeList_of s src) \<and>
      edge_heap s' = edge_heap s \<and> edge_next s' = edge_next s \<and>
      links s' = links s \<and> linkURLIndex s' = linkURLIndex s \<and>
      link_heap s' = link_heap s \<and> link_next s' = link_next s \<and>
      RemoveStaleEdges src t s' = Returns (None, s') \<and>
      (edgeList_of s src = [] \<longrightarrow> edges s' = edges s)"
proof -
  note inv = reachable_inv[OF assms]
  obtain s' where r: "RemoveStaleEdges src t s = Returns (None, s')"
    using RemoveStaleEdges_result[OF inv] by blast
  note eff = RemoveStaleEdges_effect[OF inv r]
  have empty: "edges s' = edges s" if "edgeList_of s src = []"
    using Returns_pair_eq[OF r[unfolded RemoveStaleEdges_result[OF inv]]] that by simp
  show ?thesis
    using r eff(2) eff(3) eff(4-9) RemoveStaleEdges_idem[OF inv r] empty
    by (intro exI[of _ s']) simp
qed

theorem RemoveStaleEdges_exact_witness:
  "reachable ex_graph \<and>
   (\<exists>s'. RemoveStaleEdges 7 1002 ex_graph = Returns (None, s') \<and>
      edges s' = [(6, 1)] \<and> linkEdgeMap s' = [(7, []), (9, [6])] \<and>
      map_of (edges s') 5 = None \<and> map_of (edges s') 6 = Some 1 \<and>
      edge_heap s' = edge_heap ex_graph \<and> links s' = links ex_graph \<and>
      linkURLIndex s' = linkURLIndex ex_graph \<and> link_heap s' = link_heap ex_graph \<and>
      RemoveStaleEdges 7 1002 s' = Returns (None, s')) \<and>
   (\<exists>s'. RemoveStaleEdges 8 1002 ex_graph = Returns (None, s') \<and> edges s' = edges ex_graph)"
proof -
  have r: "RemoveStaleEdges 7 1002 ex_graph =
      Returns (None, ex_graph\<lparr>edges := [(6, 1)], linkEdgeMap := [(7, []), (9, [6])]\<rparr>)"
    "RemoveStaleEdges 8 1002 ex_graph =
      Returns (None, ex_graph\<lparr>edges := edges ex_graph,
        linkEdgeMap := [(7, [5]), (9, [6]), (8, [])]\<rparr>)"
    by (simp_all add: RemoveStaleEdges_def ex_fields edgeList_of_def)
  show ?thesis
    using RemoveStaleEdges_exact[OF ex_reachable, of 7 1002]
      RemoveStaleEdges_exact[OF ex_reachable, of 8 1002] ex_reachable
    by (simp add: r)
qed

text \<open>
  C8, at the input where the code departs from it: on the scenario's graph, where
  \<open>''a''\<close> is stored with \<open>RetrievedAt = 100\<close>, an upsert of \<open>''a''\<close> with \<open>RetrievedAt = 50\<close>
  returns no error and writes the stored \<open>ID\<close> into the caller's record, but leaves the
  caller's \<open>RetrievedAt\<close> at 50 while the store keeps 100.
\<close>

theorem UpsertLink_caller_RetrievedAt_not_written_back:
  "(case UpsertLink \<lparr>Link.ID = 0, URL = ''a'', RetrievedAt = 50\<rparr> [] ex_graph of
      Returns (err, link', s') \<Rightarrow>
        err = None \<and> link' = \<lparr>Link.ID = 7, URL = ''a'', RetrievedAt = 50\<rparr> \<and>
        storedRetrievedAt s' ''a'' = Some 100
    | Panics \<Rightarrow> False
    | Spins \<Rightarrow> False)"
  by (simp add: UpsertLink_def ex_fields Let_def storedRetrievedAt_def)

text \<open>
  C7. The text of identifiers orders them as numbers. Hence, in a reachable state and for
  boundaries \<open>a0 \<le> a1 \<le> \<dots> \<le> an\<close>, the \<open>Links\<close> results over \<open>[a0,a1)\<close>, \<open>[a1,a2)\<close>, \<dots>,
  with one time threshold, have as their union the result of the single call over
  \<open>[a0,an)\<close>; no link is in the results of two of the ranges, nor twice in one result; and
  no call returns an error. The full identifier space is the case \<open>a0 = 0\<close>, \<open>an\<close> the largest
  identifier.
\<close>

theorem Links_partition_tiling:
  assumes "reachable s" "sorted bs" "bs \<noteq> []"
  shows "(\<Union>(f, t') \<in> set (zip bs (tl bs)). set (fst (Links f t' t s))) =
           set (fst (Links (hd bs) (last bs) t s)) \<and>
         (\<forall>i j. i < j \<and> Suc j < length bs \<longrightarrow>
            set (fst (Links (bs ! i) (bs ! Suc i) t s)) \<inter>
            set (fst (Links (bs ! j) (bs ! Suc j) t s)) = {}) \<and>
         (\<forall>f t'. distinct (fst (Links f t' t s)) \<and> snd (Links f t' t s) = None) \<and>
         (\<forall>a b. (uuid_String a < uuid_String b) = (a < b))"
proof (intro conjI allI impI)
  note inv = reachable_inv[OF assms(1)]
  show "(\<Union>(f, t') \<in> set (zip bs (tl bs)). set (fst (Links f t' t s))) =
           set (fst (Links (hd bs) (last bs) t s))"
    by (rule Links_tiling[OF assms(2,3)])
  show "(uuid_String a < uuid_String b) = (a < b)" for a b
    by (rule uuid_String_less)
  show "distinct (fst (Links f t' t s))" "snd (Links f t' t s) = None" for f t'
    by (rule distinct_Links[OF inv], rule Links_error)
  show "set (fst (Links (bs ! i) (bs ! Suc i) t s)) \<inter>
        set (fst (Links (bs ! j) (bs ! Suc j) t s)) = {}"
    if "i < j \<and> Suc j < length bs" for i j
  proof -
    have "bs ! Suc i \<le> bs ! j"
      using that assms(2) by (intro sorted_nth_mono) auto
    then show ?thesis by (rule Links_disjoint[OF inv])
  qed
qed

theorem Links_partition_tiling_witness:
  "reachable ex_graph \<and> sorted [0, 8, 0xffffffffffffffffffffffffffffffff :: uuid] \<and>
   set (fst (Links 0 8 200 ex_graph)) \<union>
     set (fst (Links 8 0xffffffffffffffffffffffffffffffff 200 ex_graph)) =
     set (fst (Links 0 0xffffffffffffffffffffffffffffffff 200 ex_graph)) \<and>
   set (fst (Links 0 8 200 ex_graph)) \<inter>
     set (fst (Links 8 0xffffffffffffffffffffffffffffffff 200 ex_graph)) = {} \<and>
   Links 0 8 200 ex_graph = ([0], None) \<and>
   Links 8 0xffffffffffffffffffffffffffffffff 200 ex_graph = ([1], None) \<and>
   Links 0 0xffffffffffffffffffffffffffffffff 200 ex_graph = ([0, 1], None) \<and>
   uuid_String 0x0123456789abcdef0123456789abcdef = ''01234567-89ab-cdef-0123-456789abcdef'' \<and>
   uuid_String 9 < uuid_String 10"
proof -
  have srt: "sorted [0, 8, 0xffffffffffffffffffffffffffffffff :: uuid]" by simp
  note inst = Links_partition_tiling[OF ex_reachable srt, of 200]
  have u: "set (fst (Links 0 8 200 ex_graph)) \<union>
     set (fst (Links 8 0xffffffffffffffffffffffffffffffff 200 ex_graph)) =
     set (fst (Links 0 0xffffffffffffffffffffffffffffffff 200 ex_graph))"
    using inst[THEN conjunct1] by simp
  have d: "set (fst (Links 0 8 200 ex_graph)) \<inter>
     set (fst (Links 8 0xffffffffffffffffffffffffffffffff 200 ex_graph)) = {}"
    using inst[THEN conjunct2, THEN conjunct1, rule_format, of 0 1] by simp
  have o: "uuid_String 9 < uuid_String 10"
    using inst[THEN conjunct2, THEN conjunct2, THEN conjunct2, rule_format, of 9 10] by simp
  have e: "Links 0 8 200 ex_graph = ([0], None)"
    "Links 8 0xffffffffffffffffffffffffffffffff 200 ex_graph = ([1], None)"
    "Links 0 0xffffffffffffffffffffffffffffffff 200 ex_graph = ([0, 1], None)"
    by (simp_all add: Links_def Let_def ex_fields uuid_String_less uuid_String_le)
  have t: "uuid_String 0x0123456789abcdef0123456789abcdef = ''01234567-89ab-cdef-0123-456789abcdef''"
    by code_simp
  show ?thesis using ex_reachable srt u d o e t by blast
qed




text \<open>
  C1, as the code has it. A run of calls on a new graph returns whenever each call that may
  generate an identifier draws one that was not drawn before. After any run that returned,
  the record stored for a URL carries the maximum of all the timestamps submitted for that
  URL, and no later call moves the record, changes its \<open>ID\<close> or lowers its
  \<open>RetrievedAt\<close>. Upserting the URL with \<open>t1\<close> and then with an older \<open>t2\<close> returns both
  times with no error, provided the URL is stored already or one of the identifiers drawn
  for the first call is unused; both calls hand the caller the same \<open>ID\<close>, which is the
  \<open>ID\<close> the URL had before if it was stored; the second call leaves the stored record as
  the first left it; and the stored \<open>RetrievedAt\<close> is then the maximum of \<open>t1\<close> and the
  timestamps submitted before: it is \<open>t1\<close> if none of those is newer. Without a stored URL
  and without an unused identifier the call does not return.
\<close>

theorem RetrievedAt_maximum_submitted:
  "(fresh_supply {} cs \<longrightarrow> (\<exists>s. run cs NewInMemoryGraph = Returns s)) \<and>
   (\<forall>s. run cs NewInMemoryGraph = Returns s \<longrightarrow>
      (submitted u cs \<noteq> [] \<longrightarrow>
         (\<exists>a. map_of (linkURLIndex s) u = Some a \<and>
              RetrievedAt (link_heap s a) = Max (set (submitted u cs)))) \<and>
      (\<forall>c s' a. step c s = Returns s' \<and> map_of (linkURLIndex s) u = Some a \<longrightarrow>
         map_of (linkURLIndex s') u = Some a \<and>
         Link.ID (link_heap s' a) = Link.ID (link_heap s a) \<and>
         RetrievedAt (link_heap s a) \<le> RetrievedAt (link_heap s' a)) \<and>
      (\<forall>l1 d1 l2 d2.
         URL l1 = u \<and> URL l2 = u \<and> RetrievedAt l2 < RetrievedAt l1 \<and>
         (map_of (linkURLIndex s) u \<noteq> None \<or> (\<exists>d \<in> set d1. map_of (links s) d = None)) \<longrightarrow>
         (\<exists>r1 s1 r2 s2 a.
            UpsertLink l1 d1 s = Returns (None, r1, s1) \<and>
            UpsertLink l2 d2 s1 = Returns (None, r2, s2) \<and>
            map_of (linkURLIndex s1) u = Some a \<and> map_of (linkURLIndex s2) u = Some a \<and>
            link_heap s2 a = link_heap s1 a \<and>
            Link.ID r1 = Link.ID (link_heap s1 a) \<and> Link.ID r2 = Link.ID (link_heap s1 a) \<and>
            (\<forall>a0. map_of (linkURLIndex s) u = Some a0 \<longrightarrow>
               a0 = a \<and> Link.ID (link_heap s a0) = Link.ID r1) \<and>
            RetrievedAt (link_heap s2 a) =
              Max (insert (RetrievedAt l1) (set (submitted u cs))) \<and>
            ((\<forall>t \<in> set (submitted u cs). t \<le> RetrievedAt l1) \<longrightarrow>
               RetrievedAt (link_heap s2 a) = RetrievedAt l1))) \<and>
      (\<forall>l1 d1. URL l1 = u \<and> map_of (linkURLIndex s) u = None \<and>
         (\<forall>d \<in> set d1. map_of (links s) d \<noteq> None) \<longrightarrow> UpsertLink l1 d1 s = Spins))"
proof (intro conjI allI impI)
  show "\<exists>s. run cs NewInMemoryGraph = Returns s" if "fresh_supply {} cs"
    by (rule run_returns_new[OF that])
next
  fix s assume r: "run cs NewInMemoryGraph = Returns s"
  have st: "storedRetrievedAt s u =
      (if submitted u cs = [] then None else Some (Max (set (submitted u cs))))"
    using run_storedRetrievedAt[OF NewInMemoryGraph_inv r, of u]
    by (simp add: foldl_newer_None storedRetrievedAt_def NewInMemoryGraph_def)
  show "\<exists>a. map_of (linkURLIndex s) u = Some a \<and>
                 RetrievedAt (link_heap s a) = Max (set (submitted u cs))"
    if "submitted u cs \<noteq> []"
    using st that by (auto simp: storedRetrievedAt_def)
next
  fix s c s' a
  assume r: "run cs NewInMemoryGraph = Returns s"
    and h: "step c s = Returns s' \<and> map_of (linkURLIndex s) u = Some a"
  note inv = run_inv[OF NewInMemoryGraph_inv r]
  show "map_of (linkURLIndex s') u = Some a"
    "Link.ID (link_heap s' a) = Link.ID (link_heap s a)"
    "RetrievedAt (link_heap s a) \<le> RetrievedAt (link_heap s' a)"
    using step_link_monotone[OF inv, of c s' u a] h by simp_all
next
  fix s and l1 l2 :: Link and d1 d2 :: "uuid list"
  assume r: "run cs NewInMemoryGraph = Returns s"
    and h: "URL l1 = u \<and> URL l2 = u \<and> RetrievedAt l2 < RetrievedAt l1 \<and>
         (map_of (linkURLIndex s) u \<noteq> None \<or> (\<exists>d \<in> set d1. map_of (links s) d = None))"
  have st: "storedRetrievedAt s u =
      (if submitted u cs = [] then None else Some (Max (set (submitted u cs))))"
    using run_storedRetrievedAt[OF NewInMemoryGraph_inv r, of u]
    by (simp add: foldl_newer_None storedRetrievedAt_def NewInMemoryGraph_def)
  define x where "x = Max (insert (RetrievedAt l1) (set (submitted u cs)))"
  have x: "(case storedRetrievedAt s u of None \<Rightarrow> RetrievedAt l1
            | Some m \<Rightarrow> max m (RetrievedAt l1)) = x"
    unfolding x_def by (rule stored_after_upsert[OF st])
  have xge: "RetrievedAt l1 \<le> x" unfolding x_def by simp
  have u1: "URL l1 = u" and u2: "URL l2 = u" and lt: "RetrievedAt l2 < RetrievedAt l1"
    using h by simp_all
  obtain r1 s1 where c1: "UpsertLink l1 d1 s = Returns (None, r1, s1)"
    using UpsertLink_returns[of s l1 d1] h by auto
  obtain a where ka: "map_of (linkURLIndex s1) u = Some a \<and>
      link_heap s1 a = l1\<lparr>Link.ID := Link.ID r1, RetrievedAt := x\<rparr> \<and>
      (\<forall>a'. map_of (linkURLIndex s) u = Some a' \<longrightarrow>
             a = a' \<and> Link.ID r1 = Link.ID (link_heap s a'))"
    using UpsertLink_stored(1)[OF c1, unfolded u1 x] by (rule exE)
  note a = ka[THEN conjunct1] ka[THEN conjunct2, THEN conjunct1]
  note old = ka[THEN conjunct2, THEN conjunct2, rule_format]
  obtain r2 s2 where c2: "UpsertLink l2 d2 s1 = Returns (None, r2, s2)"
    using UpsertLink_returns[of s1 l2 d2] a(1) u2 by auto
  have st1: "storedRetrievedAt s1 u = Some x"
    using a by (simp add: storedRetrievedAt_def)
  obtain b where kb: "map_of (linkURLIndex s2) u = Some b \<and>
      link_heap s2 b = l2\<lparr>Link.ID := Link.ID r2, RetrievedAt :=
          (case storedRetrievedAt s1 u of None \<Rightarrow> RetrievedAt l2
           | Some m \<Rightarrow> max m (RetrievedAt l2))\<rparr> \<and>
      (\<forall>a'. map_of (linkURLIndex s1) u = Some a' \<longrightarrow>
             b = a' \<and> Link.ID r2 = Link.ID (link_heap s1 a'))"
    using UpsertLink_stored(1)[OF c2, unfolded u2] by (rule exE)
  note kb3 = kb[THEN conjunct2, THEN conjunct2, rule_format, OF a(1)]
  have b: "map_of (linkURLIndex s2) u = Some b"
    "link_heap s2 b = l2\<lparr>Link.ID := Link.ID r2, RetrievedAt := max x (RetrievedAt l2)\<rparr>"
    "b = a" "Link.ID r2 = Link.ID (link_heap s1 a)"
    using kb[THEN conjunct1] kb[THEN conjunct2, THEN conjunct1] kb3 by (simp_all add: st1)
  have mx: "max x (RetrievedAt l2) = x" using xge lt by simp
  have same: "link_heap s2 a = link_heap s1 a"
    using b a u1 u2
      Link_upd_eq[where ?l1.0 = l2 and ?l2.0 = l1 and i = "Link.ID r1" and x = x]
    by (simp add: mx)
  have top: "x = RetrievedAt l1" if "\<forall>t \<in> set (submitted u cs). t \<le> RetrievedAt l1"
    unfolding x_def using that by (intro Max_eqI) auto
  have body: "UpsertLink l1 d1 s = Returns (None, r1, s1) \<and>
            UpsertLink l2 d2 s1 = Returns (None, r2, s2) \<and>
            map_of (linkURLIndex s1) u = Some a \<and> map_of (linkURLIndex s2) u = Some a \<and>
            link_heap s2 a = link_heap s1 a \<and>
            Link.ID r1 = Link.ID (link_heap s1 a) \<and> Link.ID r2 = Link.ID (link_heap s1 a) \<and>
            (\<forall>a0. map_of (linkURLIndex s) u = Some a0 \<longrightarrow>
               a0 = a \<and> Link.ID (link_heap s a0) = Link.ID r1) \<and>
            RetrievedAt (link_heap s2 a) =
              Max (insert (RetrievedAt l1) (set (submitted u cs))) \<and>
            ((\<forall>t \<in> set (submitted u cs). t \<le> RetrievedAt l1) \<longrightarrow>
               RetrievedAt (link_heap s2 a) = RetrievedAt l1)"
  proof (intro conjI impI allI)
    show "UpsertLink l1 d1 s = Returns (None, r1, s1)" by (rule c1)
    show "UpsertLink l2 d2 s1 = Returns (None, r2, s2)" by (rule c2)
    show "map_of (linkURLIndex s1) u = Some a" by (rule a(1))
    show "map_of (linkURLIndex s2) u = Some a" using b(1,3) by simp
    show "link_heap s2 a = link_heap s1 a" by (rule same)
    show "Link.ID r1 = Link.ID (link_heap s1 a)" by (simp add: a(2))
    show "Link.ID r2 = Link.ID (link_heap s1 a)" by (rule b(4))
    show "a0 = a" "Link.ID (link_heap s a0) = Link.ID r1"
      if "map_of (linkURLIndex s) u = Some a0" for a0
      using old[OF that] by simp_all
    show "RetrievedAt (link_heap s2 a) = Max (insert (RetrievedAt l1) (set (submitted u cs)))"
      by (simp add: same a(2) x_def)
    show "RetrievedAt (link_heap s2 a) = RetrievedAt l1"
      if "\<forall>t \<in> set (submitted u cs). t \<le> RetrievedAt l1"
      using top[OF that] by (simp add: same a(2))
  qed
  show "\<exists>r1 s1 r2 s2 a.
            UpsertLink l1 d1 s = Returns (None, r1, s1) \<and>
            UpsertLink l2 d2 s1 = Returns (None, r2, s2) \<and>
            map_of (linkURLIndex s1) u = Some a \<and> map_of (linkURLIndex s2) u = Some a \<and>
            link_heap s2 a = link_heap s1 a \<and>
            Link.ID r1 = Link.ID (link_heap s1 a) \<and> Link.ID r2 = Link.ID (link_heap s1 a) \<and>
            (\<forall>a0. map_of (linkURLIndex s) u = Some a0 \<longrightarrow>
               a0 = a \<and> Link.ID (link_heap s a0) = Link.ID r1) \<and>
            RetrievedAt (link_heap s2 a) =
              Max (insert (RetrievedAt l1) (set (submitted u cs))) \<and>
            ((\<forall>t \<in> set (submitted u cs). t \<le> RetrievedAt l1) \<longrightarrow>
               RetrievedAt (link_heap s2 a) = RetrievedAt l1)"
    by (rule exI[of _ r1], rule exI[of _ s1], rule exI[of _ r2], rule exI[of _ s2],
        rule exI[of _ a], rule body)
next
  fix s :: InMemoryGraph and l1 :: Link and d1 :: "uuid list"
  assume "URL l1 = u \<and> map_of (linkURLIndex s) u = None \<and>
         (\<forall>d \<in> set d1. map_of (links s) d \<noteq> None)"
  then show "UpsertLink l1 d1 s = Spins"
    using UpsertLink_Spins[of s l1 d1] by simp
qed

theorem RetrievedAt_maximum_submitted_witness:
  "fresh_supply {} (butlast ex_calls) \<and>
   (\<exists>s. run (butlast ex_calls) NewInMemoryGraph = Returns s) \<and>
   run ex_calls NewInMemoryGraph = Returns ex_graph \<and>
   submitted ''a'' ex_calls = [100, 50] \<and>
   map_of (linkURLIndex ex_graph) ''a'' = Some 0 \<and>
   RetrievedAt (link_heap ex_graph 0) = Max (set (submitted ''a'' ex_calls)) \<and>
   RetrievedAt (link_heap ex_graph 0) = 100 \<and>
   (\<exists>s'. step (CallUpsertLink \<lparr>Link.ID = 0, URL = ''a'', RetrievedAt = 70\<rparr> []) ex_graph
            = Returns s' \<and>
         map_of (linkURLIndex s') ''a'' = Some 0 \<and>
         Link.ID (link_heap s' 0) = Link.ID (link_heap ex_graph 0) \<and>
         RetrievedAt (link_heap ex_graph 0) \<le> RetrievedAt (link_heap s' 0)) \<and>
   (\<exists>r1 s1 r2 s2.
      UpsertLink \<lparr>Link.ID = 0, URL = ''a'', RetrievedAt = 200\<rparr> [] ex_graph =
        Returns (None, r1, s1) \<and>
      UpsertLink \<lparr>Link.ID = 0, URL = ''a'', RetrievedAt = 150\<rparr> [] s1 =
        Returns (None, r2, s2) \<and>
      map_of (linkURLIndex s1) ''a'' = Some 0 \<and> map_of (linkURLIndex s2) ''a'' = Some 0 \<and>
      link_heap s2 0 = link_heap s1 0 \<and> Link.ID r1 = 7 \<and> Link.ID r2 = 7 \<and>
      RetrievedAt (link_heap s2 0) = 200) \<and>
   (\<exists>r1 s1 r2 s2.
      UpsertLink \<lparr>Link.ID = 0, URL = ''a'', RetrievedAt = 80\<rparr> [] ex_graph =
        Returns (None, r1, s1) \<and>
      UpsertLink \<lparr>Link.ID = 0, URL = ''a'', RetrievedAt = 60\<rparr> [] s1 =
        Returns (None, r2, s2) \<and>
      map_of (linkURLIndex s1) ''a'' = Some 0 \<and> map_of (linkURLIndex s2) ''a'' = Some 0 \<and>
      link_heap s2 0 = link_heap s1 0 \<and> Link.ID r1 = 7 \<and> Link.ID r2 = 7 \<and>
      RetrievedAt (link_heap s2 0) = 100) \<and>
   (\<exists>r1 s1 r2 s2 a.
      UpsertLink \<lparr>Link.ID = 0, URL = ''c'', RetrievedAt = 30\<rparr> [7, 11] ex_graph =
        Returns (None, r1, s1) \<and>
      UpsertLink \<lparr>Link.ID = 0, URL = ''c'', RetrievedAt = 20\<rparr> [] s1 =
        Returns (None, r2, s2) \<and>
      map_of (linkURLIndex s1) ''c'' = Some a \<and> map_of (linkURLIndex s2) ''c'' = Some a \<and>
      link_heap s2 a = link_heap s1 a \<and> Link.ID r1 = Link.ID r2 \<and>
      RetrievedAt (link_heap s2 a) = 30) \<and>
   UpsertLink \<lparr>Link.ID = 0, URL = ''c'', RetrievedAt = 30\<rparr> [7, 9] ex_graph = Spins"
proof -
  define c where "c = CallUpsertLink \<lparr>Link.ID = 0, URL = ''a'', RetrievedAt = 70\<rparr> []"
  define s0 where "s0 = state_of (step c ex_graph)"
  note inst0 = RetrievedAt_maximum_submitted[of "butlast ex_calls" "''a''"]
  note inst = RetrievedAt_maximum_submitted[of ex_calls "''a''",
      THEN conjunct2, rule_format, OF ex_run]
  note instc = RetrievedAt_maximum_submitted[of ex_calls "''c''",
      THEN conjunct2, rule_format, OF ex_run]
  have fs: "fresh_supply {} (butlast ex_calls)" by (simp add: ex_calls_def)
  have rr: "\<exists>s. run (butlast ex_calls) NewInMemoryGraph = Returns s"
    using inst0[THEN conjunct1] fs by blast
  have ix: "map_of (linkURLIndex ex_graph) ''a'' = Some 0" by (simp add: ex_fields)
  have sub: "submitted ''c'' ex_calls = []" by (simp add: ex_calls_def)
  have s': "step c ex_graph = Returns s0"
    by (simp add: c_def s0_def UpsertLink_def ex_fields Let_def)
  have p1: "\<exists>a. map_of (linkURLIndex ex_graph) ''a'' = Some a \<and>
                 RetrievedAt (link_heap ex_graph a) = Max (set (submitted ''a'' ex_calls))"
    using inst[THEN conjunct1] ex_submitted by simp
  have p2: "map_of (linkURLIndex s0) ''a'' = Some 0 \<and>
            Link.ID (link_heap s0 0) = Link.ID (link_heap ex_graph 0) \<and>
            RetrievedAt (link_heap ex_graph 0) \<le> RetrievedAt (link_heap s0 0)"
    using inst[THEN conjunct2, THEN conjunct1, rule_format, of c s0 0] s' ix by simp
  have two: "\<exists>r1 s1 r2 s2.
      UpsertLink \<lparr>Link.ID = 0, URL = ''a'', RetrievedAt = t1\<rparr> [] ex_graph =
        Returns (None, r1, s1) \<and>
      UpsertLink \<lparr>Link.ID = 0, URL = ''a'', RetrievedAt = t2\<rparr> [] s1 =
        Returns (None, r2, s2) \<and>
      map_of (linkURLIndex s1) ''a'' = Some 0 \<and> map_of (linkURLIndex s2) ''a'' = Some 0 \<and>
      link_heap s2 0 = link_heap s1 0 \<and> Link.ID r1 = 7 \<and> Link.ID r2 = 7 \<and>
      RetrievedAt (link_heap s2 0) = Max {t1, 100, 50}" if lt: "t2 < t1" for t1 t2 :: int
  proof -
    define l1 where "l1 = \<lparr>Link.ID = 0, URL = ''a'', RetrievedAt = t1\<rparr>"
    define l2 where "l2 = \<lparr>Link.ID = 0, URL = ''a'', RetrievedAt = t2\<rparr>"
    have pre: "URL l1 = ''a'' \<and> URL l2 = ''a'' \<and> RetrievedAt l2 < RetrievedAt l1 \<and>
         (map_of (linkURLIndex ex_graph) ''a'' \<noteq> None \<or>
          (\<exists>d \<in> set []. map_of (links ex_graph) d = None))"
      using lt by (simp add: l1_def l2_def ex_fields)
    obtain r1 s1 r2 s2 a where
      k: "UpsertLink l1 [] ex_graph = Returns (None, r1, s1)"
        "UpsertLink l2 [] s1 = Returns (None, r2, s2)"
        "map_of (linkURLIndex s1) ''a'' = Some a" "map_of (linkURLIndex s2) ''a'' = Some a"
        "link_heap s2 a = link_heap s1 a"
        "Link.ID r1 = Link.ID (link_heap s1 a)" "Link.ID r2 = Link.ID (link_heap s1 a)"
      and o: "\<forall>a0. map_of (linkURLIndex ex_graph) ''a'' = Some a0 \<longrightarrow>
               a0 = a \<and> Link.ID (link_heap ex_graph a0) = Link.ID r1"
      and m: "RetrievedAt (link_heap s2 a) =
              Max (insert (RetrievedAt l1) (set (submitted ''a'' ex_calls)))"
      using inst[THEN conjunct2, THEN conjunct2, THEN conjunct1, rule_format,
          of l1 l2 "[]" "[]", OF pre] by blast
    have a0: "a = 0" "Link.ID r1 = 7" using o[rule_format, OF ix] by (simp_all add: ex_fields)
    have m': "RetrievedAt (link_heap s2 0) = Max {t1, 100, 50}"
      using m unfolding a0 by (simp add: ex_submitted l1_def)
    have "UpsertLink l1 [] ex_graph = Returns (None, r1, s1) \<and>
      UpsertLink l2 [] s1 = Returns (None, r2, s2) \<and>
      map_of (linkURLIndex s1) ''a'' = Some 0 \<and> map_of (linkURLIndex s2) ''a'' = Some 0 \<and>
      link_heap s2 0 = link_heap s1 0 \<and> Link.ID r1 = 7 \<and> Link.ID r2 = 7 \<and>
      RetrievedAt (link_heap s2 0) = Max {t1, 100, 50}"
      using k[unfolded a0] a0(2) m' by simp
    then show ?thesis unfolding l1_def l2_def by blast
  qed
  have p3: "\<exists>r1 s1 r2 s2.
      UpsertLink \<lparr>Link.ID = 0, URL = ''a'', RetrievedAt = 200\<rparr> [] ex_graph =
        Returns (None, r1, s1) \<and>
      UpsertLink \<lparr>Link.ID = 0, URL = ''a'', RetrievedAt = 150\<rparr> [] s1 =
        Returns (None, r2, s2) \<and>
      map_of (linkURLIndex s1) ''a'' = Some 0 \<and> map_of (linkURLIndex s2) ''a'' = Some 0 \<and>
      link_heap s2 0 = link_heap s1 0 \<and> Link.ID r1 = 7 \<and> Link.ID r2 = 7 \<and>
      RetrievedAt (link_heap s2 0) = 200"
    using two[of 150 200] by simp
  have p4: "\<exists>r1 s1 r2 s2.
      UpsertLink \<lparr>Link.ID = 0, URL = ''a'', RetrievedAt = 80\<rparr> [] ex_graph =
        Returns (None, r1, s1) \<and>
      UpsertLink \<lparr>Link.ID = 0, URL = ''a'', RetrievedAt = 60\<rparr> [] s1 =
        Returns (None, r2, s2) \<and>
      map_of (linkURLIndex s1) ''a'' = Some 0 \<and> map_of (linkURLIndex s2) ''a'' = Some 0 \<and>
      link_heap s2 0 = link_heap s1 0 \<and> Link.ID r1 = 7 \<and> Link.ID r2 = 7 \<and>
      RetrievedAt (link_heap s2 0) = 100"
    using two[of 60 80] by simp
  have p5: "\<exists>r1 s1 r2 s2 a.
      UpsertLink \<lparr>Link.ID = 0, URL = ''c'', RetrievedAt = 30\<rparr> [7, 11] ex_graph =
        Returns (None, r1, s1) \<and>
      UpsertLink \<lparr>Link.ID = 0, URL = ''c'', RetrievedAt = 20\<rparr> [] s1 =
        Returns (None, r2, s2) \<and>
      map_of (linkURLIndex s1) ''c'' = Some a \<and> map_of (linkURLIndex s2) ''c'' = Some a \<and>
      link_heap s2 a = link_heap s1 a \<and> Link.ID r1 = Link.ID r2 \<and>
      RetrievedAt (link_heap s2 a) = 30"
  proof -
    define l1 where "l1 = \<lparr>Link.ID = 0, URL = ''c'', RetrievedAt = 30\<rparr>"
    define l2 where "l2 = \<lparr>Link.ID = 0, URL = ''c'', RetrievedAt = 20\<rparr>"
    have pre: "URL l1 = ''c'' \<and> URL l2 = ''c'' \<and> RetrievedAt l2 < RetrievedAt l1 \<and>
         (map_of (linkURLIndex ex_graph) ''c'' \<noteq> None \<or>
          (\<exists>d \<in> set [7, 11]. map_of (links ex_graph) d = None))"
      by (simp add: l1_def l2_def ex_fields)
    obtain r1 s1 r2 s2 a where
      k: "UpsertLink l1 [7, 11] ex_graph = Returns (None, r1, s1)"
        "UpsertLink l2 [] s1 = Returns (None, r2, s2)"
        "map_of (linkURLIndex s1) ''c'' = Some a" "map_of (linkURLIndex s2) ''c'' = Some a"
        "link_heap s2 a = link_heap s1 a"
        "Link.ID r1 = Link.ID (link_heap s1 a)" "Link.ID r2 = Link.ID (link_heap s1 a)"
      and m: "RetrievedAt (link_heap s2 a) =
              Max (insert (RetrievedAt l1) (set (submitted ''c'' ex_calls)))"
      using instc[THEN conjunct2, THEN conjunct2, THEN conjunct1, rule_format,
          of l1 l2 "[7, 11]" "[]", OF pre] by blast
    have "UpsertLink l1 [7, 11] ex_graph = Returns (None, r1, s1) \<and>
      UpsertLink l2 [] s1 = Returns (None, r2, s2) \<and>
      map_of (linkURLIndex s1) ''c'' = Some a \<and> map_of (linkURLIndex s2) ''c'' = Some a \<and>
      link_heap s2 a = link_heap s1 a \<and> Link.ID r1 = Link.ID r2 \<and>
      RetrievedAt (link_heap s2 a) = 30"
      using k m by (simp add: sub l1_def)
    then show ?thesis unfolding l1_def l2_def by blast
  qed
  have p6: "UpsertLink \<lparr>Link.ID = 0, URL = ''c'', RetrievedAt = 30\<rparr> [7, 9] ex_graph = Spins"
    using instc[THEN conjunct2, THEN conjunct2, THEN conjunct2, rule_format,
        of "\<lparr>Link.ID = 0, URL = ''c'', RetrievedAt = 30\<rparr>" "[7, 9]"]
    by (simp add: ex_fields)
  have q1: "RetrievedAt (link_heap ex_graph 0) = Max (set (submitted ''a'' ex_calls))"
    using p1 ix by simp
  have q2: "\<exists>s'. step (CallUpsertLink \<lparr>Link.ID = 0, URL = ''a'', RetrievedAt = 70\<rparr> []) ex_graph
            = Returns s' \<and>
         map_of (linkURLIndex s') ''a'' = Some 0 \<and>
         Link.ID (link_heap s' 0) = Link.ID (link_heap ex_graph 0) \<and>
         RetrievedAt (link_heap ex_graph 0) \<le> RetrievedAt (link_heap s' 0)"
    using s'[unfolded c_def] p2 by blast
  show ?thesis
    using fs rr ex_run ex_submitted ix q1 ex_fields(7) q2 p3 p4 p5 p6
    by (simp only: Link.simps)
qed

text \<open>
  C1 as stated fails when a newer timestamp was submitted before the pair of calls: on a
  new graph, after \<open>''a''\<close> is upserted with \<open>RetrievedAt = 100\<close>, upserting it with 80 and
  then with \<open>60 < 80\<close> returns the same \<open>ID\<close> 7 both times and leaves the stored
  \<open>RetrievedAt\<close> at 100, not at 80.
\<close>

theorem RetrievedAt_after_older_pair_counterexample:
  "run [CallUpsertLink \<lparr>Link.ID = 0, URL = ''a'', RetrievedAt = 100\<rparr> [7]] NewInMemoryGraph =
     Returns (state_of (run [CallUpsertLink \<lparr>Link.ID = 0, URL = ''a'', RetrievedAt = 100\<rparr> [7]]
       NewInMemoryGraph)) \<and>
   UpsertLink \<lparr>Link.ID = 0, URL = ''a'', RetrievedAt = 80\<rparr> []
       (state_of (run [CallUpsertLink \<lparr>Link.ID = 0, URL = ''a'', RetrievedAt = 100\<rparr> [7]]
         NewInMemoryGraph)) =
     Returns (None, \<lparr>Link.ID = 7, URL = ''a'', RetrievedAt = 80\<rparr>,
       state_of (run [CallUpsertLink \<lparr>Link.ID = 0, URL = ''a'', RetrievedAt = 100\<rparr> [7],
                      CallUpsertLink \<lparr>Link.ID = 0, URL = ''a'', RetrievedAt = 80\<rparr> []]
         NewInMemoryGraph)) \<and>
   UpsertLink \<lparr>Link.ID = 0, URL = ''a'', RetrievedAt = 60\<rparr> []
       (state_of (run [CallUpsertLink \<lparr>Link.ID = 0, URL = ''a'', RetrievedAt = 100\<rparr> [7],
                       CallUpsertLink \<lparr>Link.ID = 0, URL = ''a'', RetrievedAt = 80\<rparr> []]
         NewInMemoryGraph)) =
     Returns (None, \<lparr>Link.ID = 7, URL = ''a'', RetrievedAt = 60\<rparr>,
       state_of (run [CallUpsertLink \<lparr>Link.ID = 0, URL = ''a'', RetrievedAt = 100\<rparr> [7],
                      CallUpsertLink \<lparr>Link.ID = 0, URL = ''a'', RetrievedAt = 80\<rparr> [],
                      CallUpsertLink \<lparr>Link.ID = 0, URL = ''a'', RetrievedAt = 60\<rparr> []]
         NewInMemoryGraph)) \<and>
   (60 :: int) < 80 \<and>
   storedRetrievedAt
     (state_of (run [CallUpsertLink \<lparr>Link.ID = 0, URL = ''a'', RetrievedAt = 100\<rparr> [7],
                     CallUpsertLink \<lparr>Link.ID = 0, URL = ''a'', RetrievedAt = 80\<rparr> [],
                     CallUpsertLink \<lparr>Link.ID = 0, URL = ''a'', RetrievedAt = 60\<rparr> []]
        NewInMemoryGraph)) ''a'' = Some 100 \<and>
   (100 :: int) \<noteq> 80"
  by (simp add: UpsertLink_def NewInMemoryGraph_def Let_def storedRetrievedAt_def)

text \<open>
  C5. In a reachable state, \<open>UpsertLink\<close> returns with no error whenever its URL is stored
  or one of the identifiers drawn for it is unused, and does not return otherwise; and a
  run of further calls returns whenever each call that may generate an identifier draws
  one that is neither stored nor drawn before. Take an upsert, any calls after it, and a
  second upsert that returns by that condition, which holds for the URL of the first
  upsert whatever is drawn. If the two upserts carry the same URL the caller is handed
  the same \<open>ID\<close> both times; if they carry different URLs the two \<open>ID\<close>s differ. And in
  every reachable state two stored links with the same URL are one link.
\<close>

theorem URL_uniqueness:
  assumes "reachable s"
  shows "(\<forall>l d. map_of (linkURLIndex s) (URL l) \<noteq> None \<or>
                (\<exists>x \<in> set d. map_of (links s) x = None) \<longrightarrow>
            (\<exists>r s'. UpsertLink l d s = Returns (None, r, s') \<and> reachable s')) \<and>
         (\<forall>l d. map_of (linkURLIndex s) (URL l) = None \<and>
                (\<forall>x \<in> set d. map_of (links s) x \<noteq> None) \<longrightarrow> UpsertLink l d s = Spins) \<and>
         (\<forall>cs. fresh_supply (fst ` set (links s) \<union> fst ` set (edges s)) cs \<longrightarrow>
            (\<exists>s'. run cs s = Returns s')) \<and>
         (\<forall>l1 d1 e1 r1 s1 cs s2 l2 d2.
            UpsertLink l1 d1 s = Returns (e1, r1, s1) \<and> run cs s1 = Returns s2 \<longrightarrow>
            map_of (linkURLIndex s2) (URL l1) \<noteq> None \<and>
            (map_of (linkURLIndex s2) (URL l2) \<noteq> None \<or>
               (\<exists>x \<in> set d2. map_of (links s2) x = None) \<longrightarrow>
             (\<exists>r2 s3. UpsertLink l2 d2 s2 = Returns (None, r2, s3) \<and>
                (URL l2 = URL l1 \<longrightarrow> Link.ID r2 = Link.ID r1) \<and>
                (URL l2 \<noteq> URL l1 \<longrightarrow> Link.ID r2 \<noteq> Link.ID r1)))) \<and>
         (\<forall>i a j b. map_of (links s) i = Some a \<and> map_of (links s) j = Some b \<and>
            URL (link_heap s a) = URL (link_heap s b) \<longrightarrow> i = j)"
proof (intro conjI allI impI)
  note inv = reachable_inv[OF assms]
  {
    fix l :: Link and d :: "uuid list"
    assume "map_of (linkURLIndex s) (URL l) \<noteq> None \<or> (\<exists>x \<in> set d. map_of (links s) x = None)"
    then obtain r s' where r: "UpsertLink l d s = Returns (None, r, s')"
      using UpsertLink_returns[of s l d] by blast
    then have "step (CallUpsertLink l d) s = Returns s'" by simp
    then have "reachable s'" by (rule reachable_step[OF assms])
    then show "\<exists>r s'. UpsertLink l d s = Returns (None, r, s') \<and> reachable s'"
      using r by blast
  }
  {
    fix l :: Link and d :: "uuid list"
    assume "map_of (linkURLIndex s) (URL l) = None \<and>
                (\<forall>x \<in> set d. map_of (links s) x \<noteq> None)"
    then show "UpsertLink l d s = Spins" using UpsertLink_Spins[of s l d] by simp
  }
  {
    fix cs assume f: "fresh_supply (fst ` set (links s) \<union> fst ` set (edges s)) cs"
    show "\<exists>s'. run cs s = Returns s'"
      by (rule run_returns[OF inv _ _ f]) (simp_all add: map_of_eq_None_iff)
  }
  {
    fix i a j b
    assume "map_of (links s) i = Some a \<and> map_of (links s) j = Some b \<and>
            URL (link_heap s a) = URL (link_heap s b)"
    then show "i = j" using one_link_per_URL[OF inv] by blast
  }
  fix l1 l2 :: Link and d1 d2 :: "uuid list" and e1 r1 s1 cs s2
  assume h: "UpsertLink l1 d1 s = Returns (e1, r1, s1) \<and> run cs s1 = Returns s2"
  then have c1: "UpsertLink l1 d1 s = Returns (e1, r1, s1)" and r: "run cs s1 = Returns s2"
    by simp_all
  note inv1 = UpsertLink_inv[OF inv c1]
  note inv2 = run_inv[OF inv1 r]
  obtain a where a: "map_of (linkURLIndex s1) (URL l1) = Some a"
    "Link.ID (link_heap s1 a) = Link.ID r1"
    using UpsertLink_stored(1)[OF c1] by auto
  note m = run_link_monotone[OF inv1 r a(1)]
  have a2: "map_of (linkURLIndex s2) (URL l1) = Some a" "Link.ID (link_heap s2 a) = Link.ID r1"
    using m a(2) by simp_all
  show "map_of (linkURLIndex s2) (URL l1) \<noteq> None" using a2(1) by simp
  assume "map_of (linkURLIndex s2) (URL l2) \<noteq> None \<or> (\<exists>x \<in> set d2. map_of (links s2) x = None)"
  then obtain r2 s3 where c2: "UpsertLink l2 d2 s2 = Returns (None, r2, s3)"
    using UpsertLink_returns[of s2 l2 d2] by blast
  note inv3 = UpsertLink_inv[OF inv2 c2]
  obtain b where kb: "map_of (linkURLIndex s3) (URL l2) = Some b \<and>
      link_heap s3 b = l2\<lparr>Link.ID := Link.ID r2, RetrievedAt :=
          (case storedRetrievedAt s2 (URL l2) of None \<Rightarrow> RetrievedAt l2
           | Some m \<Rightarrow> max m (RetrievedAt l2))\<rparr> \<and>
      (\<forall>a'. map_of (linkURLIndex s2) (URL l2) = Some a' \<longrightarrow>
             b = a' \<and> Link.ID r2 = Link.ID (link_heap s2 a'))"
    using UpsertLink_stored(1)[OF c2] by (rule exE)
  have b: "map_of (linkURLIndex s3) (URL l2) = Some b" "Link.ID (link_heap s3 b) = Link.ID r2"
    using kb[THEN conjunct1] kb[THEN conjunct2, THEN conjunct1] by simp_all
  note old = kb[THEN conjunct2, THEN conjunct2, rule_format]
  have same: "Link.ID r2 = Link.ID r1" if "URL l2 = URL l1"
    using old[of a] a2 that by simp
  have diff: "Link.ID r2 \<noteq> Link.ID r1" if ne: "URL l2 \<noteq> URL l1"
  proof
    assume eq: "Link.ID r2 = Link.ID r1"
    have st: "step (CallUpsertLink l2 d2) s2 = Returns s3" using c2 by simp
    note m3 = step_link_monotone[OF inv2 st a2(1)]
    have a3: "map_of (linkURLIndex s3) (URL l1) = Some a" "Link.ID (link_heap s3 a) = Link.ID r1"
      using m3 a2(2) by simp_all
    have "map_of (links s3) (Link.ID r1) = Some a"
      using index_okD(3)[OF inv3 a3(1)] a3(2) by simp
    moreover have "map_of (links s3) (Link.ID r1) = Some b"
      using index_okD(3)[OF inv3 b(1)] b(2) eq by simp
    ultimately have "a = b" by simp
    then show False
      using index_okD(2)[OF inv3 a3(1)] index_okD(2)[OF inv3 b(1)] ne by simp
  qed
  show "\<exists>r2 s3. UpsertLink l2 d2 s2 = Returns (None, r2, s3) \<and>
                (URL l2 = URL l1 \<longrightarrow> Link.ID r2 = Link.ID r1) \<and>
                (URL l2 \<noteq> URL l1 \<longrightarrow> Link.ID r2 \<noteq> Link.ID r1)"
    using c2 same diff by blast
qed

theorem URL_uniqueness_witness:
  "reachable ex_graph \<and>
   (\<exists>r s'. UpsertLink \<lparr>Link.ID = 0, URL = ''c'', RetrievedAt = 10\<rparr> [7, 11] ex_graph =
             Returns (None, r, s') \<and> reachable s') \<and>
   UpsertLink \<lparr>Link.ID = 0, URL = ''c'', RetrievedAt = 10\<rparr> [7, 9] ex_graph = Spins \<and>
   fresh_supply (fst ` set (links ex_graph) \<union> fst ` set (edges ex_graph))
     [CallUpsertLink \<lparr>Link.ID = 0, URL = ''c'', RetrievedAt = 10\<rparr> [7, 11], CallFindLink 7] \<and>
   (\<exists>s'. run [CallUpsertLink \<lparr>Link.ID = 0, URL = ''c'', RetrievedAt = 10\<rparr> [7, 11],
               CallFindLink 7] ex_graph = Returns s') \<and>
   (\<exists>e1 r1 s1 s2 r2 s3.
      UpsertLink \<lparr>Link.ID = 0, URL = ''c'', RetrievedAt = 10\<rparr> [7, 11] ex_graph
        = Returns (e1, r1, s1) \<and>
      run [CallFindLink 7] s1 = Returns s2 \<and>
      UpsertLink \<lparr>Link.ID = 0, URL = ''c'', RetrievedAt = 5\<rparr> [] s2 = Returns (None, r2, s3) \<and>
      Link.ID r1 = 11 \<and> Link.ID r2 = Link.ID r1) \<and>
   (\<exists>e1 r1 s1 s2 r2 s3.
      UpsertLink \<lparr>Link.ID = 0, URL = ''c'', RetrievedAt = 10\<rparr> [7, 11] ex_graph
        = Returns (e1, r1, s1) \<and>
      run [CallFindLink 7] s1 = Returns s2 \<and>
      UpsertLink \<lparr>Link.ID = 0, URL = ''a'', RetrievedAt = 5\<rparr> [] s2 = Returns (None, r2, s3) \<and>
      Link.ID r1 = 11 \<and> Link.ID r2 = 7 \<and> Link.ID r2 \<noteq> Link.ID r1) \<and>
   (\<exists>e1 r1 s1 s2 r2 s3.
      UpsertLink \<lparr>Link.ID = 0, URL = ''c'', RetrievedAt = 10\<rparr> [7, 11] ex_graph
        = Returns (e1, r1, s1) \<and>
      run [CallFindLink 7] s1 = Returns s2 \<and>
      UpsertLink \<lparr>Link.ID = 0, URL = ''d'', RetrievedAt = 5\<rparr> [11, 12] s2 =
        Returns (None, r2, s3) \<and>
      Link.ID r1 = 11 \<and> Link.ID r2 = 12 \<and> Link.ID r2 \<noteq> Link.ID r1) \<and>
   map_of (links ex_graph) 7 = Some 0 \<and> map_of (links ex_graph) 9 = Some 1 \<and>
   URL (link_heap ex_graph 0) \<noteq> URL (link_heap ex_graph 1)"
proof -
  define lc where "lc = \<lparr>Link.ID = 0, URL = ''c'', RetrievedAt = 10\<rparr>"
  define lc2 where "lc2 = \<lparr>Link.ID = 0, URL = ''c'', RetrievedAt = 5\<rparr>"
  define la where "la = \<lparr>Link.ID = 0, URL = ''a'', RetrievedAt = 5\<rparr>"
  define ld where "ld = \<lparr>Link.ID = 0, URL = ''d'', RetrievedAt = 5\<rparr>"
  define rc where "rc = \<lparr>Link.ID = 11, URL = ''c'', RetrievedAt = 10\<rparr>"
  define s1 where "s1 = state_of (step (CallUpsertLink lc [7, 11]) ex_graph)"
  define s2 where "s2 = state_of (run [CallFindLink 7] s1)"
  note inst = URL_uniqueness[OF ex_reachable]
  have t1: "\<exists>r s'. UpsertLink lc [7, 11] ex_graph = Returns (None, r, s') \<and> reachable s'"
    using inst[THEN conjunct1, rule_format, of lc "[7, 11]"] by (simp add: lc_def ex_fields)
  have t2: "UpsertLink lc [7, 9] ex_graph = Spins"
    using inst[THEN conjunct2, THEN conjunct1, rule_format, of lc "[7, 9]"]
    by (simp add: lc_def ex_fields)
  have fs: "fresh_supply (fst ` set (links ex_graph) \<union> fst ` set (edges ex_graph))
     [CallUpsertLink lc [7, 11], CallFindLink 7]"
    by (simp add: ex_fields)
  have t3: "\<exists>s'. run [CallUpsertLink lc [7, 11], CallFindLink 7] ex_graph = Returns s'"
    using inst[THEN conjunct2, THEN conjunct2, THEN conjunct1, rule_format, OF fs] .
  have u1: "UpsertLink lc [7, 11] ex_graph = Returns (None, rc, s1)"
    by (simp add: s1_def lc_def rc_def UpsertLink_def ex_fields Let_def)
  have f1: "linkURLIndex s1 = [(''a'', 0), (''b'', 1), (''c'', 2)]"
    "links s1 = [(7, 0), (9, 1), (11, 2)]" "link_next s1 = 3"
    "link_heap s1 0 = \<lparr>Link.ID = 7, URL = ''a'', RetrievedAt = 100\<rparr>"
    "link_heap s1 2 = \<lparr>Link.ID = 11, URL = ''c'', RetrievedAt = 10\<rparr>"
    by (simp_all add: s1_def lc_def UpsertLink_def ex_fields Let_def)
  have r: "run [CallFindLink 7] s1 = Returns s2"
    by (simp add: s2_def)
  have f2: "linkURLIndex s2 = [(''a'', 0), (''b'', 1), (''c'', 2)]"
    "links s2 = [(7, 0), (9, 1), (11, 2)]"
    "link_heap s2 0 = \<lparr>Link.ID = 7, URL = ''a'', RetrievedAt = 100\<rparr>"
    "link_heap s2 2 = \<lparr>Link.ID = 11, URL = ''c'', RetrievedAt = 10\<rparr>"
    by (simp_all add: s2_def FindLink_def f1 Let_def)
  note b = inst[THEN conjunct2, THEN conjunct2, THEN conjunct2, THEN conjunct1, rule_format,
      OF conjI[OF u1 r], THEN conjunct2, rule_format]
  obtain r2 s3 where k2: "UpsertLink lc2 [] s2 = Returns (None, r2, s3)"
    "URL lc2 = URL lc \<longrightarrow> Link.ID r2 = Link.ID rc"
    using b[of lc2 "[]"] by (auto simp: lc2_def f2)
  obtain r3 s4 where k3: "UpsertLink la [] s2 = Returns (None, r3, s4)"
    "URL la \<noteq> URL lc \<longrightarrow> Link.ID r3 \<noteq> Link.ID rc"
    using b[of la "[]"] by (auto simp: la_def f2)
  obtain r4 s5 where k4: "UpsertLink ld [11, 12] s2 = Returns (None, r4, s5)"
    "URL ld \<noteq> URL lc \<longrightarrow> Link.ID r4 \<noteq> Link.ID rc"
    using b[of ld "[11, 12]"] by (auto simp: ld_def f2)
  have i3: "Link.ID r3 = 7"
    using k3(1) by (simp add: la_def UpsertLink_def f2 Let_def) (cases r3, auto)
  have i4: "Link.ID r4 = 12"
    using k4(1) by (simp add: ld_def UpsertLink_def f2 Let_def) (cases r4, auto)
  have g2: "Link.ID rc = 11 \<and> Link.ID r2 = Link.ID rc"
    using k2(2) by (simp add: lc_def lc2_def rc_def)
  have g3: "Link.ID rc = 11 \<and> Link.ID r3 = 7 \<and> Link.ID r3 \<noteq> Link.ID rc"
    using k3(2) i3 by (simp add: lc_def la_def rc_def)
  have g4: "Link.ID rc = 11 \<and> Link.ID r4 = 12 \<and> Link.ID r4 \<noteq> Link.ID rc"
    using k4(2) i4 by (simp add: lc_def ld_def rc_def)
  have e2: "\<exists>e1 r1 s1 s2 r2 s3.
      UpsertLink lc [7, 11] ex_graph = Returns (e1, r1, s1) \<and>
      run [CallFindLink 7] s1 = Returns s2 \<and>
      UpsertLink lc2 [] s2 = Returns (None, r2, s3) \<and>
      Link.ID r1 = 11 \<and> Link.ID r2 = Link.ID r1"
    using u1 r k2(1) g2 by blast
  have e3: "\<exists>e1 r1 s1 s2 r2 s3.
      UpsertLink lc [7, 11] ex_graph = Returns (e1, r1, s1) \<and>
      run [CallFindLink 7] s1 = Returns s2 \<and>
      UpsertLink la [] s2 = Returns (None, r2, s3) \<and>
      Link.ID r1 = 11 \<and> Link.ID r2 = 7 \<and> Link.ID r2 \<noteq> Link.ID r1"
    using u1 r k3(1) g3 by blast
  have e4: "\<exists>e1 r1 s1 s2 r2 s3.
      UpsertLink lc [7, 11] ex_graph = Returns (e1, r1, s1) \<and>
      run [CallFindLink 7] s1 = Returns s2 \<and>
      UpsertLink ld [11, 12] s2 = Returns (None, r2, s3) \<and>
      Link.ID r1 = 11 \<and> Link.ID r2 = 12 \<and> Link.ID r2 \<noteq> Link.ID r1"
    using u1 r k4(1) g4 by blast
  have rest: "map_of (links ex_graph) 7 = Some 0" "map_of (links ex_graph) 9 = Some 1"
      "URL (link_heap ex_graph 0) \<noteq> URL (link_heap ex_graph 1)"
    by (simp_all add: ex_fields)
  show ?thesis
    using ex_reachable t1 t2 fs t3 e2 e3 e4 rest
    unfolding lc_def lc2_def la_def ld_def by blast
qed

text \<open>
  C2, at the input where the code departs from it. On the scenario's graph \<open>Links\<close> over
  the whole identifier space with threshold 200 collects the pointers to the two stored
  links, the first being \<open>''a''\<close> with \<open>RetrievedAt = 100\<close>. \<open>UpsertLink\<close> of \<open>''a''\<close> with
  \<open>RetrievedAt = 250\<close> then overwrites that record in place, and the iterator, advanced to
  its first item after that, yields a copy with \<open>RetrievedAt = 250\<close>: a record that did not
  match when the iterator was created, and not the one that did. A copy that \<open>FindLink\<close>
  made before the upsert still reads 100. Likewise \<open>Edges\<close> with threshold 2000 collects
  the pointer to the edge \<open>(7, 9)\<close>, whose \<open>UpdatedAt\<close> is 1001; after \<open>UpsertEdge\<close> of
  \<open>(7, 9)\<close> while the clock reads 3000 the iterator yields a copy with \<open>UpdatedAt = 3000\<close>.
\<close>

theorem iterator_yields_later_write:
  "Links 0 0xffffffffffffffffffffffffffffffff 200 ex_graph = ([0, 1], None) \<and>
   link_heap ex_graph 0 = \<lparr>Link.ID = 7, URL = ''a'', RetrievedAt = 100\<rparr> \<and>
   fst (FindLink 7 ex_graph) = Inr 2 \<and>
   UpsertLink \<lparr>Link.ID = 0, URL = ''a'', RetrievedAt = 250\<rparr> [] (snd (FindLink 7 ex_graph)) =
     Returns (None, \<lparr>Link.ID = 7, URL = ''a'', RetrievedAt = 250\<rparr>,
       state_of (run [CallFindLink 7,
                      CallUpsertLink \<lparr>Link.ID = 0, URL = ''a'', RetrievedAt = 250\<rparr> []]
         ex_graph)) \<and>
   iterator_Next (newIterator [0, 1]) = (True, \<lparr>items = [0, 1], seen = 1, exhausted = False\<rparr>) \<and>
   map_option (\<lambda>(p, s'). link_heap s' p)
     (linkIterator_Link \<lparr>items = [0, 1], seen = 1, exhausted = False\<rparr>
        (state_of (run [CallFindLink 7,
                        CallUpsertLink \<lparr>Link.ID = 0, URL = ''a'', RetrievedAt = 250\<rparr> []]
           ex_graph))) =
     Some \<lparr>Link.ID = 7, URL = ''a'', RetrievedAt = 250\<rparr> \<and>
   \<not> (250 :: int) < 200 \<and>
   link_heap (state_of (run [CallFindLink 7,
                        CallUpsertLink \<lparr>Link.ID = 0, URL = ''a'', RetrievedAt = 250\<rparr> []]
           ex_graph)) 2 = \<lparr>Link.ID = 7, URL = ''a'', RetrievedAt = 100\<rparr> \<and>
   Edges 0 0xffffffffffffffffffffffffffffffff 2000 ex_graph = Returns ([0, 1], None) \<and>
   edge_heap ex_graph 0 = \<lparr>Edge.ID = 5, Src = 7, Dst = 9, UpdatedAt = 1001\<rparr> \<and>
   run [CallUpsertEdge \<lparr>Edge.ID = 0, Src = 7, Dst = 9, UpdatedAt = 0\<rparr> [] 3000] ex_graph =
     Returns (state_of
       (run [CallUpsertEdge \<lparr>Edge.ID = 0, Src = 7, Dst = 9, UpdatedAt = 0\<rparr> [] 3000]
         ex_graph)) \<and>
   edge_heap (state_of
       (run [CallUpsertEdge \<lparr>Edge.ID = 0, Src = 7, Dst = 9, UpdatedAt = 0\<rparr> [] 3000]
         ex_graph)) 0 = \<lparr>Edge.ID = 5, Src = 7, Dst = 9, UpdatedAt = 3000\<rparr> \<and>
   map_option (\<lambda>(p, s'). edge_heap s' p)
     (edgeIterator_Edge \<lparr>items = [0, 1], seen = 1, exhausted = False\<rparr>
        (state_of (run [CallUpsertEdge \<lparr>Edge.ID = 0, Src = 7, Dst = 9, UpdatedAt = 0\<rparr> [] 3000]
           ex_graph))) =
     Some \<lparr>Edge.ID = 5, Src = 7, Dst = 9, UpdatedAt = 3000\<rparr> \<and>
   \<not> (3000 :: int) < 2000"
  by (simp add: Links_def Edges_def FindLink_def UpsertLink_def UpsertEdge_def ex_fields
      edgeList_of_def Let_def uuid_String_less uuid_String_le newIterator_def iterator_Next_def
      linkIterator_Link_def edgeIterator_Edge_def)

end
